theory Spec2Isabelle
  imports Complex_Main
begin

section \<open>Errors\<close>

text \<open>
  The exceptions that the operators of \<^verbatim>\<open>python/needle/ops.py\<close> and the array
  backend raise. Every raise of the source is a value \<open>Inl e\<close> of the model.
  \<open>ValueError\<close> stands for the backend's shape errors, \<open>AxisError\<close> for an axis
  out of range, \<open>TypeError\<close> for an operator called with the wrong number of operands.
\<close>

datatype error = NotImplementedError | IndexError | ValueError | AxisError | TypeError

fun and_then :: "error + 'a \<Rightarrow> ('a \<Rightarrow> error + 'b) \<Rightarrow> error + 'b" where
  "and_then (Inl e) f = Inl e"
| "and_then (Inr x) f = f x"

section \<open>The array backend\<close>

text \<open>
  \<^verbatim>\<open>import numpy as array_api\<close>: a dense n-dimensional array is its shape and its
  elements in row-major (C) order. The elements are \<^verbatim>\<open>float32\<close> in the source; the
  model computes with real numbers, so rounding, infinities and NaN are outside it.
\<close>

datatype ndarray = NDArray (shape: "nat list") (data: "real list")

definition well_shaped :: "ndarray \<Rightarrow> bool" where
  "well_shaped a \<longleftrightarrow> length (data a) = prod_list (shape a)"

text \<open>Flat offset of a multi-index, and the multi-index of a flat offset.\<close>

fun ravel :: "nat list \<Rightarrow> nat list \<Rightarrow> nat" where
  "ravel (d # ds) (i # is) = i * prod_list ds + ravel ds is"
| "ravel _ _ = 0"

fun unravel :: "nat list \<Rightarrow> nat \<Rightarrow> nat list" where
  "unravel [] k = []"
| "unravel (d # ds) k = (k div prod_list ds) # unravel ds (k mod prod_list ds)"

definition in_bounds :: "nat list \<Rightarrow> nat list \<Rightarrow> bool" where
  "in_bounds s idx \<longleftrightarrow> list_all2 (<) idx s"

definition item :: "ndarray \<Rightarrow> nat list \<Rightarrow> real" where
  "item a idx = data a ! ravel (shape a) idx"

text \<open>The array of a given shape whose element at every multi-index is given by a function.\<close>

definition np_fromfunction :: "nat list \<Rightarrow> (nat list \<Rightarrow> real) \<Rightarrow> ndarray" where
  "np_fromfunction s f = NDArray s (map (\<lambda>k. f (unravel s k)) [0..<prod_list s])"

definition np_map :: "(real \<Rightarrow> real) \<Rightarrow> ndarray \<Rightarrow> ndarray" where
  "np_map f a = NDArray (shape a) (map f (data a))"

definition np_scalar :: "real \<Rightarrow> ndarray" where
  "np_scalar c = NDArray [] [c]"

definition np_ones :: "nat list \<Rightarrow> ndarray" where
  "np_ones s = NDArray s (replicate (prod_list s) 1)"

subsection \<open>Broadcasting\<close>

text \<open>
  NumPy aligns two shapes at their last axis; an axis that is missing or has size 1 is
  stretched to the size of the other. The element of a stretched array at a multi-index
  of the result is read at index 0 along every stretched axis.
\<close>

fun bc_dim :: "nat \<Rightarrow> nat \<Rightarrow> nat option" where
  "bc_dim d e =
     (if d = e then Some d else if d = 1 then Some e else if e = 1 then Some d else None)"

definition pad_shape :: "nat \<Rightarrow> nat list \<Rightarrow> nat list" where
  "pad_shape n s = replicate (n - length s) 1 @ s"

definition broadcast_shapes :: "nat list \<Rightarrow> nat list \<Rightarrow> nat list option" where
  "broadcast_shapes s t =
     (let n = max (length s) (length t);
          ds = map2 bc_dim (pad_shape n s) (pad_shape n t)
      in if None \<in> set ds then None else Some (map the ds))"

definition src_index :: "nat list \<Rightarrow> nat list \<Rightarrow> nat list" where
  "src_index s u = map2 (\<lambda>d i. if d = 1 then 0 else i) s (drop (length u - length s) u)"

definition np_binop :: "(real \<Rightarrow> real \<Rightarrow> real) \<Rightarrow> ndarray \<Rightarrow> ndarray \<Rightarrow> error + ndarray" where
  "np_binop f a b =
     (case broadcast_shapes (shape a) (shape b) of
        None \<Rightarrow> Inl ValueError
      | Some r \<Rightarrow>
          Inr (np_fromfunction r
                 (\<lambda>u. f (item a (src_index (shape a) u)) (item b (src_index (shape b) u)))))"

subsection \<open>Python indexing\<close>

text \<open>A list index of Python: a negative index counts from the end; out of range raises.\<close>

definition py_index :: "nat \<Rightarrow> int \<Rightarrow> error + nat" where
  "py_index n i =
     (if 0 \<le> i \<and> i < int n then Inr (nat i)
      else if - int n \<le> i \<and> i < 0 then Inr (nat (int n + i))
      else Inl IndexError)"

subsection \<open>Reshape, transpose, broadcast, sum, matmul\<close>

text \<open>
  \<^verbatim>\<open>numpy.reshape(a, shape)\<close>: the elements in row-major order are kept. One entry of
  the requested shape may be negative (usually written \<open>-1\<close>) and is then inferred from
  the size of the array; two negative entries raise.
\<close>

definition infer_shape :: "nat \<Rightarrow> int list \<Rightarrow> error + nat list" where
  "infer_shape n shp =
     (case filter (\<lambda>d. d < 0) shp of
        [] \<Rightarrow> if prod_list (map nat shp) = n then Inr (map nat shp) else Inl ValueError
      | [m] \<Rightarrow>
          (let p = prod_list (map nat (filter (\<lambda>d. \<not> d < 0) shp))
           in if p \<noteq> 0 \<and> n mod p = 0
              then Inr (map (\<lambda>d. if d < 0 then n div p else nat d) shp)
              else Inl ValueError)
      | _ \<Rightarrow> Inl ValueError)"

definition np_reshape :: "ndarray \<Rightarrow> int list \<Rightarrow> error + ndarray" where
  "np_reshape a shp =
     and_then (infer_shape (prod_list (shape a)) shp) (\<lambda>s. Inr (NDArray s (data a)))"

text \<open>
  \<^verbatim>\<open>numpy.transpose(a, axes)\<close>: axis \<open>k\<close> of the result is axis \<open>axes[k]\<close> of the
  input, so the result at multi-index \<open>u\<close> is the input at the multi-index whose entry
  for axis \<open>d\<close> is the entry of \<open>u\<close> at the position of \<open>d\<close> in \<open>axes\<close>.
\<close>

fun index_of :: "nat list \<Rightarrow> nat \<Rightarrow> nat" where
  "index_of [] d = 0"
| "index_of (p # ps) d = (if p = d then 0 else Suc (index_of ps d))"

definition np_transpose :: "ndarray \<Rightarrow> nat list \<Rightarrow> error + ndarray" where
  "np_transpose a perm =
     (if length perm = length (shape a) \<and> set perm = {0..<length (shape a)}
      then Inr (np_fromfunction (map (\<lambda>p. shape a ! p) perm)
                  (\<lambda>u. item a (map (\<lambda>d. u ! index_of perm d) [0..<length perm])))
      else Inl ValueError)"

text \<open>\<^verbatim>\<open>numpy.broadcast_to(a, shape)\<close>.\<close>

definition broadcastable :: "nat list \<Rightarrow> nat list \<Rightarrow> bool" where
  "broadcastable s t \<longleftrightarrow>
     length s \<le> length t \<and> list_all2 (\<lambda>d e. d = e \<or> d = 1) s (drop (length t - length s) t)"

definition np_broadcast_to :: "ndarray \<Rightarrow> nat list \<Rightarrow> error + ndarray" where
  "np_broadcast_to a t =
     (if broadcastable (shape a) t
      then Inr (np_fromfunction t (\<lambda>u. item a (src_index (shape a) u)))
      else Inl ValueError)"

text \<open>
  \<^verbatim>\<open>numpy.sum(a, axis)\<close> with \<open>axis\<close> either \<^verbatim>\<open>None\<close> (all axes) or a tuple of
  axes, each possibly negative; an axis out of range or given twice raises. The reduced
  axes are removed from the shape. An empty tuple reduces nothing.
\<close>

definition sum_axis :: "ndarray \<Rightarrow> nat \<Rightarrow> ndarray" where
  "sum_axis a k =
     np_fromfunction (take k (shape a) @ drop (Suc k) (shape a))
       (\<lambda>u. sum_list (map (\<lambda>i. item a (take k u @ i # drop k u)) [0..<shape a ! k]))"

definition reduce_axes :: "ndarray \<Rightarrow> nat list \<Rightarrow> ndarray" where
  "reduce_axes a R =
     fold (\<lambda>k b. if k \<in> set R then sum_axis b k else b) (rev [0..<length (shape a)]) a"

fun normalize_axes :: "nat \<Rightarrow> int list \<Rightarrow> error + nat list" where
  "normalize_axes n [] = Inr []"
| "normalize_axes n (k # ks) =
     (if - int n \<le> k \<and> k < int n
      then and_then (normalize_axes n ks) (\<lambda>R. Inr (nat (k mod int n) # R))
      else Inl AxisError)"

definition np_sum :: "ndarray \<Rightarrow> int list option \<Rightarrow> error + ndarray" where
  "np_sum a axes =
     (case axes of
        None \<Rightarrow> Inr (reduce_axes a [0..<length (shape a)])
      | Some ks \<Rightarrow>
          and_then (normalize_axes (length (shape a)) ks)
            (\<lambda>R. if distinct R then Inr (reduce_axes a R) else Inl ValueError))"

text \<open>
  \<^verbatim>\<open>numpy.matmul(a, b)\<close>: the last two axes are the matrix axes, the axes before them
  are batch axes and broadcast against each other. A one-dimensional operand is
  promoted to a matrix and the added axis is removed from the result; a zero-dimensional
  operand raises.
\<close>

definition matmul_nd :: "ndarray \<Rightarrow> ndarray \<Rightarrow> error + ndarray" where
  "matmul_nd a b =
     (let sa = shape a; sb = shape b;
          ba = take (length sa - 2) sa; bb = take (length sb - 2) sb;
          n = sa ! (length sa - 2); k = sa ! (length sa - 1);
          k' = sb ! (length sb - 2); m = sb ! (length sb - 1)
      in if k \<noteq> k' then Inl ValueError
         else case broadcast_shapes ba bb of
                None \<Rightarrow> Inl ValueError
              | Some bo \<Rightarrow>
                  Inr (np_fromfunction (bo @ [n, m])
                         (\<lambda>u. let bu = take (length bo) u;
                                  i = u ! length bo; j = u ! Suc (length bo)
                              in sum_list
                                   (map (\<lambda>l. item a (src_index ba bu @ [i, l]) *
                                               item b (src_index bb bu @ [l, j]))
                                      [0..<k]))))"

definition np_matmul :: "ndarray \<Rightarrow> ndarray \<Rightarrow> error + ndarray" where
  "np_matmul a b =
     (if shape a = [] \<or> shape b = [] then Inl ValueError
      else
        let a' = (if length (shape a) = 1 then NDArray (1 # shape a) (data a) else a);
            b' = (if length (shape b) = 1 then NDArray (shape b @ [1]) (data b) else b)
        in and_then (matmul_nd a' b')
             (\<lambda>c. let s = shape c;
                       s1 = (if length (shape a) = 1
                             then take (length s - 2) s @ [last s] else s);
                       s2 = (if length (shape b) = 1 then butlast s1 else s1)
                   in Inr (NDArray s2 (data c))))"

section \<open>Operators\<close>

text \<open>
  One constructor per operator class of \<^verbatim>\<open>ops.py\<close>, carrying the attributes its
  \<^verbatim>\<open>__init__\<close> stores. A scalar attribute is an array, as a Python number behaves
  like a zero-dimensional array in the backend's arithmetic.
\<close>

datatype op =
    EWiseAdd
  | AddScalar ndarray
  | EWiseMul
  | MulScalar ndarray
  | PowerScalar int
  | EWiseDiv
  | DivScalar ndarray
  | Transpose "int list option"
  | Reshape "int list"
  | BroadcastTo "nat list"
  | Summation "int list option"
  | MatMul
  | Negate
  | Log
  | Exp
  | ReLU

text \<open>
  A node of the computation graph: its identity, the operator that produced it (none for
  a leaf), its operand nodes and its realized value. Two occurrences of a node with the
  same identity are the same Python object.
\<close>

datatype node = Node (nid: nat) (op: "op option") (inputs: "node list") (cached_data: ndarray)

subsection \<open>Forward computation\<close>

definition EWiseAdd_compute :: "ndarray \<Rightarrow> ndarray \<Rightarrow> error + ndarray" where
  "EWiseAdd_compute a b = np_binop (+) a b"

definition AddScalar_compute :: "ndarray \<Rightarrow> ndarray \<Rightarrow> error + ndarray" where
  "AddScalar_compute scalar a = np_binop (+) a scalar"

definition EWiseMul_compute :: "ndarray \<Rightarrow> ndarray \<Rightarrow> error + ndarray" where
  "EWiseMul_compute a b = np_binop (*) a b"

definition MulScalar_compute :: "ndarray \<Rightarrow> ndarray \<Rightarrow> error + ndarray" where
  "MulScalar_compute scalar a = np_binop (*) a scalar"

definition PowerScalar_compute :: "int \<Rightarrow> ndarray \<Rightarrow> error + ndarray" where
  "PowerScalar_compute scalar a = Inr (np_map (\<lambda>x. x powi scalar) a)"

definition EWiseDiv_compute :: "ndarray \<Rightarrow> ndarray \<Rightarrow> error + ndarray" where
  "EWiseDiv_compute a b = np_binop (/) a b"

definition DivScalar_compute :: "ndarray \<Rightarrow> ndarray \<Rightarrow> error + ndarray" where
  "DivScalar_compute scalar a = np_binop (/) a scalar"

text \<open>
  \<^verbatim>\<open>Transpose.compute\<close> builds the identity permutation and swaps two of its entries:
  the last two when \<^verbatim>\<open>self.axes\<close> is \<^verbatim>\<open>None\<close>, else the entries at
  \<^verbatim>\<open>self.axes[0]\<close> and \<^verbatim>\<open>self.axes[1]\<close>. The right-hand side of the tuple
  assignment is read before either entry is written.
\<close>

definition swap_entries :: "nat list \<Rightarrow> int \<Rightarrow> int \<Rightarrow> error + nat list" where
  "swap_entries r i j =
     and_then (py_index (length r) j) (\<lambda>j'.
     and_then (py_index (length r) i) (\<lambda>i'.
       Inr (r[i' := r ! j', j' := r ! i'])))"

definition Transpose_axes :: "int list option \<Rightarrow> nat \<Rightarrow> error + nat list" where
  "Transpose_axes axes n =
     (case axes of
        None \<Rightarrow> swap_entries [0..<n] (- 1) (- 2)
      | Some (i # j # rest) \<Rightarrow> swap_entries [0..<n] i j
      | Some _ \<Rightarrow> Inl IndexError)"

definition Transpose_compute :: "int list option \<Rightarrow> ndarray \<Rightarrow> error + ndarray" where
  "Transpose_compute axes a =
     and_then (Transpose_axes axes (length (shape a))) (np_transpose a)"

definition Reshape_compute :: "int list \<Rightarrow> ndarray \<Rightarrow> error + ndarray" where
  "Reshape_compute shp a = np_reshape a shp"

definition BroadcastTo_compute :: "nat list \<Rightarrow> ndarray \<Rightarrow> error + ndarray" where
  "BroadcastTo_compute shp a = np_broadcast_to a shp"

text \<open>
  \<^verbatim>\<open>Summation.__init__\<close> receives \<^verbatim>\<open>None\<close>, an integer or a tuple, and stores a
  bare integer as a one-element tuple. \<open>Summation_init\<close> is the attribute
  \<^verbatim>\<open>self.axes\<close> after the constructor has run, so \<^verbatim>\<open>Summation(axes)\<close> is the
  operator \<open>Summation (Summation_init axes)\<close>.
\<close>

datatype axes_arg = AxesNone | AxesInt int | AxesTuple "int list"

fun Summation_init :: "axes_arg \<Rightarrow> int list option" where
  "Summation_init AxesNone = None"
| "Summation_init (AxesInt k) = Some [k]"
| "Summation_init (AxesTuple ks) = Some ks"

definition Summation_compute :: "int list option \<Rightarrow> ndarray \<Rightarrow> error + ndarray" where
  "Summation_compute axes a = np_sum a axes"

definition MatMul_compute :: "ndarray \<Rightarrow> ndarray \<Rightarrow> error + ndarray" where
  "MatMul_compute a b = np_matmul a b"

definition Negate_compute :: "ndarray \<Rightarrow> error + ndarray" where
  "Negate_compute a = Inr (np_map uminus a)"

definition Log_compute :: "ndarray \<Rightarrow> error + ndarray" where
  "Log_compute a = Inr (np_map ln a)"

definition Exp_compute :: "ndarray \<Rightarrow> error + ndarray" where
  "Exp_compute a = Inr (np_map exp a)"

definition ReLU_compute :: "ndarray \<Rightarrow> error + ndarray" where
  "ReLU_compute a = np_binop max a (np_scalar 0)"

text \<open>\<^verbatim>\<open>op.compute(*args)\<close>: the dispatch on the operator class.\<close>

fun compute :: "op \<Rightarrow> ndarray list \<Rightarrow> error + ndarray" where
  "compute EWiseAdd [a, b] = EWiseAdd_compute a b"
| "compute (AddScalar c) [a] = AddScalar_compute c a"
| "compute EWiseMul [a, b] = EWiseMul_compute a b"
| "compute (MulScalar c) [a] = MulScalar_compute c a"
| "compute (PowerScalar n) [a] = PowerScalar_compute n a"
| "compute EWiseDiv [a, b] = EWiseDiv_compute a b"
| "compute (DivScalar c) [a] = DivScalar_compute c a"
| "compute (Transpose axes) [a] = Transpose_compute axes a"
| "compute (Reshape shp) [a] = Reshape_compute shp a"
| "compute (BroadcastTo shp) [a] = BroadcastTo_compute shp a"
| "compute (Summation axes) [a] = Summation_compute axes a"
| "compute MatMul [a, b] = MatMul_compute a b"
| "compute Negate [a] = Negate_compute a"
| "compute Log [a] = Log_compute a"
| "compute Exp [a] = Exp_compute a"
| "compute ReLU [a] = ReLU_compute a"
| "compute _ _ = Inl TypeError"

text \<open>
  The module-level helpers \<^verbatim>\<open>transpose\<close>, \<^verbatim>\<open>reshape\<close> and \<^verbatim>\<open>summation\<close>
  construct the operator and apply it; the graph is evaluated eagerly, so the value of
  the new tensor is that operator's \<^verbatim>\<open>compute\<close> on the operand's value.
\<close>

definition transpose_t :: "ndarray \<Rightarrow> int list option \<Rightarrow> error + ndarray" where
  "transpose_t a axes = Transpose_compute axes a"

definition reshape :: "ndarray \<Rightarrow> int list \<Rightarrow> error + ndarray" where
  "reshape a shp = Reshape_compute shp a"

definition summation :: "ndarray \<Rightarrow> axes_arg \<Rightarrow> error + ndarray" where
  "summation a axes = Summation_compute (Summation_init axes) a"

subsection \<open>Gradients\<close>

text \<open>
  \<^verbatim>\<open>op.gradient(out_grad, node)\<close> returns one tensor per operand. The arithmetic on
  tensors inside a gradient (\<^verbatim>\<open>*\<close>, \<^verbatim>\<open>/\<close>, unary \<^verbatim>\<open>-\<close>, \<^verbatim>\<open>**\<close>, \<^verbatim>\<open>@\<close>)
  applies the matching operator; the model takes the value it computes. Unpacking
  \<^verbatim>\<open>node.inputs\<close> into the wrong number of names raises.
\<close>

definition EWiseAdd_gradient :: "ndarray \<Rightarrow> node \<Rightarrow> error + ndarray list" where
  "EWiseAdd_gradient out_grad node = Inr [out_grad, out_grad]"

definition AddScalar_gradient :: "ndarray \<Rightarrow> ndarray \<Rightarrow> node \<Rightarrow> error + ndarray list" where
  "AddScalar_gradient scalar out_grad node = Inr [out_grad]"

definition EWiseMul_gradient :: "ndarray \<Rightarrow> node \<Rightarrow> error + ndarray list" where
  "EWiseMul_gradient out_grad node =
     (case inputs node of
        [lhs, rhs] \<Rightarrow>
          and_then (EWiseMul_compute out_grad (cached_data rhs)) (\<lambda>g1.
          and_then (EWiseMul_compute out_grad (cached_data lhs)) (\<lambda>g2.
            Inr [g1, g2]))
      | _ \<Rightarrow> Inl ValueError)"

definition MulScalar_gradient :: "ndarray \<Rightarrow> ndarray \<Rightarrow> node \<Rightarrow> error + ndarray list" where
  "MulScalar_gradient scalar out_grad node =
     and_then (MulScalar_compute scalar out_grad) (\<lambda>g. Inr [g])"

definition PowerScalar_gradient :: "int \<Rightarrow> ndarray \<Rightarrow> node \<Rightarrow> error + ndarray list" where
  "PowerScalar_gradient scalar out_grad node = Inl NotImplementedError"

definition EWiseDiv_gradient :: "ndarray \<Rightarrow> node \<Rightarrow> error + ndarray list" where
  "EWiseDiv_gradient out_grad node =
     (case inputs node of
        [lhs, rhs] \<Rightarrow>
          and_then (EWiseDiv_compute out_grad (cached_data rhs)) (\<lambda>g1.
          and_then (Negate_compute out_grad) (\<lambda>ng.
          and_then (EWiseMul_compute ng (cached_data lhs)) (\<lambda>t.
          and_then (PowerScalar_compute (- 2) (cached_data rhs)) (\<lambda>p.
          and_then (EWiseMul_compute t p) (\<lambda>g2.
            Inr [g1, g2])))))
      | _ \<Rightarrow> Inl ValueError)"

definition DivScalar_gradient :: "ndarray \<Rightarrow> ndarray \<Rightarrow> node \<Rightarrow> error + ndarray list" where
  "DivScalar_gradient scalar out_grad node =
     and_then (DivScalar_compute scalar out_grad) (\<lambda>g. Inr [g])"

definition Transpose_gradient :: "int list option \<Rightarrow> ndarray \<Rightarrow> node \<Rightarrow> error + ndarray list" where
  "Transpose_gradient axes out_grad node =
     and_then (transpose_t out_grad axes) (\<lambda>g. Inr [g])"

definition Reshape_gradient :: "int list \<Rightarrow> ndarray \<Rightarrow> node \<Rightarrow> error + ndarray list" where
  "Reshape_gradient shp out_grad node =
     (case inputs node of
        [x] \<Rightarrow> and_then (reshape out_grad (map int (shape (cached_data x)))) (\<lambda>g. Inr [g])
      | _ \<Rightarrow> Inl ValueError)"

text \<open>
  The loop of \<^verbatim>\<open>BroadcastTo.gradient\<close>: the output axes from the last to the first,
  with the input axis index running down beside them; an output axis is collected when
  the input has no axis left for it or the two sizes differ.
\<close>

fun reduce_dim_loop :: "nat list \<Rightarrow> nat list \<Rightarrow> int \<Rightarrow> nat list \<Rightarrow> nat list \<Rightarrow> nat list" where
  "reduce_dim_loop output_shape input_shape input_shape_idx [] reduce_dim = reduce_dim"
| "reduce_dim_loop output_shape input_shape input_shape_idx (output_shape_idx # rest) reduce_dim =
     reduce_dim_loop output_shape input_shape (input_shape_idx - 1) rest
       (if input_shape_idx < 0 then reduce_dim @ [output_shape_idx]
        else if output_shape ! output_shape_idx \<noteq> input_shape ! nat input_shape_idx
             then reduce_dim @ [output_shape_idx]
             else reduce_dim)"

definition BroadcastTo_reduce_dim :: "nat list \<Rightarrow> nat list \<Rightarrow> nat list" where
  "BroadcastTo_reduce_dim output_shape input_shape =
     reduce_dim_loop output_shape input_shape (int (length input_shape) - 1)
       (rev [0..<length output_shape]) []"

definition BroadcastTo_gradient :: "nat list \<Rightarrow> ndarray \<Rightarrow> node \<Rightarrow> error + ndarray list" where
  "BroadcastTo_gradient shp out_grad node =
     (case inputs node of
        [x] \<Rightarrow>
          (let output_shape = shape out_grad;
               input_shape = shape (cached_data x);
               reduce_dim = BroadcastTo_reduce_dim output_shape input_shape
           in and_then (summation out_grad (AxesTuple (map int reduce_dim))) (\<lambda>s.
              and_then (reshape s (map int input_shape)) (\<lambda>g. Inr [g])))
      | _ \<Rightarrow> Inl ValueError)"

text \<open>
  \<^verbatim>\<open>Summation.gradient\<close>: \<^verbatim>\<open>if self.axes\<close> is false for \<^verbatim>\<open>None\<close> and for the empty
  tuple. The loop writes 1 at each axis by Python list assignment. The last line
  multiplies the tensor by an array, which applies \<^verbatim>\<open>MulScalar\<close> with that array.
\<close>

fun set_ones :: "nat list \<Rightarrow> int list \<Rightarrow> error + nat list" where
  "set_ones sum_shape [] = Inr sum_shape"
| "set_ones sum_shape (d # rest) =
     and_then (py_index (length sum_shape) d) (\<lambda>k. set_ones (sum_shape[k := 1]) rest)"

definition Summation_sum_shape :: "int list option \<Rightarrow> nat list \<Rightarrow> error + nat list" where
  "Summation_sum_shape axes input_shape =
     (case axes of
        None \<Rightarrow> Inr (map (\<lambda>_. 1) [0..<length input_shape])
      | Some [] \<Rightarrow> Inr (map (\<lambda>_. 1) [0..<length input_shape])
      | Some ks \<Rightarrow> set_ones input_shape ks)"

definition Summation_gradient :: "int list option \<Rightarrow> ndarray \<Rightarrow> node \<Rightarrow> error + ndarray list" where
  "Summation_gradient axes out_grad node =
     (case inputs node of
        [x] \<Rightarrow>
          (let input_shape = shape (cached_data x)
           in and_then (Summation_sum_shape axes input_shape) (\<lambda>sum_shape.
              and_then (reshape out_grad (map int sum_shape)) (\<lambda>og.
              and_then (MulScalar_compute (np_ones input_shape) og) (\<lambda>g. Inr [g]))))
      | _ \<Rightarrow> Inl ValueError)"

text \<open>
  \<^verbatim>\<open>MatMul.gradient\<close>: when a gradient's shape differs from its operand's, the leading
  \<^verbatim>\<open>len(dx.shape) - len(x.shape)\<close> axes are summed away (none when the difference is
  not positive).
\<close>

definition restore_shape :: "ndarray \<Rightarrow> ndarray \<Rightarrow> error + ndarray" where
  "restore_shape dx x =
     (if shape dx \<noteq> shape x
      then summation dx (AxesTuple (map int [0..<length (shape dx) - length (shape x)]))
      else Inr dx)"

definition MatMul_gradient :: "ndarray \<Rightarrow> node \<Rightarrow> error + ndarray list" where
  "MatMul_gradient out_grad node =
     (case inputs node of
        [x, y] \<Rightarrow>
          and_then (transpose_t (cached_data y) None) (\<lambda>ty.
          and_then (MatMul_compute out_grad ty) (\<lambda>dx.
          and_then (transpose_t (cached_data x) None) (\<lambda>tx.
          and_then (MatMul_compute tx out_grad) (\<lambda>dy.
          and_then (restore_shape dx (cached_data x)) (\<lambda>dx'.
          and_then (restore_shape dy (cached_data y)) (\<lambda>dy'.
            Inr [dx', dy']))))))
      | _ \<Rightarrow> Inl ValueError)"

definition Negate_gradient :: "ndarray \<Rightarrow> node \<Rightarrow> error + ndarray list" where
  "Negate_gradient out_grad node = and_then (Negate_compute out_grad) (\<lambda>g. Inr [g])"

definition Log_gradient :: "ndarray \<Rightarrow> node \<Rightarrow> error + ndarray list" where
  "Log_gradient out_grad node =
     (case inputs node of
        [x] \<Rightarrow> and_then (EWiseDiv_compute out_grad (cached_data x)) (\<lambda>g. Inr [g])
      | _ \<Rightarrow> Inl ValueError)"

definition Exp_gradient :: "ndarray \<Rightarrow> node \<Rightarrow> error + ndarray list" where
  "Exp_gradient out_grad node =
     (case inputs node of
        [x] \<Rightarrow>
          and_then (Exp_compute (cached_data x)) (\<lambda>e.
          and_then (EWiseMul_compute out_grad e) (\<lambda>g. Inr [g]))
      | _ \<Rightarrow> Inl ValueError)"

text \<open>
  \<^verbatim>\<open>ReLU.gradient\<close>: the mask \<^verbatim>\<open>(cached_data > 0).astype(float32)\<close> is taken from the
  operand's value and wrapped in a tensor, so the product is \<^verbatim>\<open>EWiseMul\<close>.
\<close>

definition ReLU_gradient :: "ndarray \<Rightarrow> node \<Rightarrow> error + ndarray list" where
  "ReLU_gradient out_grad node =
     (case inputs node of
        [x] \<Rightarrow>
          and_then
            (EWiseMul_compute out_grad
               (np_map (\<lambda>v. if v > 0 then 1 else 0) (cached_data x)))
            (\<lambda>g. Inr [g])
      | _ \<Rightarrow> Inl ValueError)"

fun gradient :: "op \<Rightarrow> ndarray \<Rightarrow> node \<Rightarrow> error + ndarray list" where
  "gradient EWiseAdd out_grad node = EWiseAdd_gradient out_grad node"
| "gradient (AddScalar c) out_grad node = AddScalar_gradient c out_grad node"
| "gradient EWiseMul out_grad node = EWiseMul_gradient out_grad node"
| "gradient (MulScalar c) out_grad node = MulScalar_gradient c out_grad node"
| "gradient (PowerScalar n) out_grad node = PowerScalar_gradient n out_grad node"
| "gradient EWiseDiv out_grad node = EWiseDiv_gradient out_grad node"
| "gradient (DivScalar c) out_grad node = DivScalar_gradient c out_grad node"
| "gradient (Transpose axes) out_grad node = Transpose_gradient axes out_grad node"
| "gradient (Reshape shp) out_grad node = Reshape_gradient shp out_grad node"
| "gradient (BroadcastTo shp) out_grad node = BroadcastTo_gradient shp out_grad node"
| "gradient (Summation axes) out_grad node = Summation_gradient axes out_grad node"
| "gradient MatMul out_grad node = MatMul_gradient out_grad node"
| "gradient Negate out_grad node = Negate_gradient out_grad node"
| "gradient Log out_grad node = Log_gradient out_grad node"
| "gradient Exp out_grad node = Exp_gradient out_grad node"
| "gradient ReLU out_grad node = ReLU_gradient out_grad node"

section \<open>The backward engine\<close>

text \<open>
  The engine lives in \<^verbatim>\<open>python/needle/autograd.py\<close>, which is not among the sources;
  the definitions of this section follow section 4.3 of the specification. The gradient of
  a node is the value its gradient tensor realizes to.
\<close>

text \<open>
  Modelled from the spec: the depth-first traversal behind the topological ordering
  (autograd.py is missing). A node is appended after all its inputs (post-order), and a
  node whose identity is already in the order is not visited again (deduplication).
\<close>

fun topo_sort_dfs :: "node \<Rightarrow> node list \<Rightarrow> node list" where
  "topo_sort_dfs (Node i opn ins c) topo_order =
     (if i \<in> nid ` set topo_order then topo_order
      else fold topo_sort_dfs ins topo_order @ [Node i opn ins c])"

text \<open>
  Modelled from the spec: step 1 of the algorithm (autograd.py is missing), the
  reverse post-order of the traversal from the output node: the output first, leaves last.
\<close>

definition find_topo_sort :: "node \<Rightarrow> node list" where
  "find_topo_sort out_node = rev (topo_sort_dfs out_node [])"

text \<open>
  Modelled from the spec: "sum its accumulated contribution list into a single gradient
  tensor" (autograd.py is missing). The contributions are added with the tensor addition
  \<^verbatim>\<open>EWiseAdd\<close>, in the order they arrived; the spec does not say what an empty list
  gives, and the model raises.
\<close>

fun sum_node_list :: "ndarray list \<Rightarrow> error + ndarray" where
  "sum_node_list [] = Inl TypeError"
| "sum_node_list (g # gs) = fold (\<lambda>h acc. and_then acc (\<lambda>a. EWiseAdd_compute a h)) gs (Inr g)"

text \<open>
  Modelled from the spec: "append each to the corresponding input node's contribution
  list" (autograd.py is missing). The accumulation map sends a node identity to the list of
  incoming contributions, empty for a node that has received none.
\<close>

fun append_grads ::
  "node list \<Rightarrow> ndarray list \<Rightarrow> (nat \<Rightarrow> ndarray list) \<Rightarrow> (nat \<Rightarrow> ndarray list)" where
  "append_grads (v # vs) (g # gs) node_to_grads =
     append_grads vs gs (node_to_grads(nid v := node_to_grads (nid v) @ [g]))"
| "append_grads _ _ node_to_grads = node_to_grads"

text \<open>
  Modelled from the spec: step 3 for one node (autograd.py is missing). The state is the
  accumulation map and the gradients recorded so far. The node's contributions are summed
  and recorded as its gradient; for a non-leaf the operator's gradient is called with the
  sum and its results are appended to the inputs' lists. An error of the sum or of the
  operator's gradient propagates.
\<close>

definition backward_step ::
  "node \<Rightarrow> (nat \<Rightarrow> ndarray list) \<times> (nat \<rightharpoonup> ndarray) \<Rightarrow>
   error + (nat \<Rightarrow> ndarray list) \<times> (nat \<rightharpoonup> ndarray)" where
  "backward_step v st =
     (case st of (node_to_grads, grads) \<Rightarrow>
        and_then (sum_node_list (node_to_grads (nid v))) (\<lambda>g.
          case op v of
            None \<Rightarrow> Inr (node_to_grads, grads(nid v \<mapsto> g))
          | Some f \<Rightarrow>
              and_then (gradient f g v) (\<lambda>gs.
                Inr (append_grads (inputs v) gs node_to_grads, grads(nid v \<mapsto> g)))))"

text \<open>
  Modelled from the spec: step 3, the nodes processed in topological order
  (autograd.py is missing).
\<close>

fun backward_loop ::
  "node list \<Rightarrow> (nat \<Rightarrow> ndarray list) \<times> (nat \<rightharpoonup> ndarray) \<Rightarrow>
   error + (nat \<Rightarrow> ndarray list) \<times> (nat \<rightharpoonup> ndarray)" where
  "backward_loop [] st = Inr st"
| "backward_loop (v # vs) st = and_then (backward_step v st) (backward_loop vs)"

text \<open>
  Modelled from the spec: steps 2 to 4 with an explicitly supplied seed gradient
  (autograd.py is missing). The result maps the identity of every processed node to its
  gradient.
\<close>

definition backward_from :: "node \<Rightarrow> ndarray \<Rightarrow> error + (nat \<rightharpoonup> ndarray)" where
  "backward_from out_node seed =
     and_then
       (backward_loop (find_topo_sort out_node) ((\<lambda>_. [])(nid out_node := [seed]), Map.empty))
       (\<lambda>st. Inr (snd st))"

text \<open>
  Modelled from the spec: the \<^verbatim>\<open>backward()\<close> entry point (autograd.py is missing),
  seeded with a gradient of ones of the output node's shape.
\<close>

definition backward :: "node \<Rightarrow> error + (nat \<rightharpoonup> ndarray)" where
  "backward out_node = backward_from out_node (np_ones (shape (cached_data out_node)))"

text \<open>
  The nodes reachable from a node, and the condition that an identity names one node:
  two reachable nodes with the same identity are the same node. A node cannot occur below
  itself, so a graph with consistent identities is acyclic.
\<close>

fun subnodes :: "node \<Rightarrow> node list" where
  "subnodes (Node i opn ins c) = Node i opn ins c # concat (map subnodes ins)"

definition consistent_ids :: "node \<Rightarrow> bool" where
  "consistent_ids out_node \<longleftrightarrow>
     list_all (\<lambda>a. list_all (\<lambda>b. nid a \<noteq> nid b \<or> a = b) (subnodes out_node))
       (subnodes out_node)"

text \<open>
  A list of nodes is in topological order when no identity occurs twice in it and all
  inputs of a node occur after the node.
\<close>

fun topo_ok :: "node list \<Rightarrow> bool" where
  "topo_ok [] = True"
| "topo_ok (u # rest) =
     (nid u \<notin> nid ` set rest \<and> nid ` set (inputs u) \<subseteq> nid ` set rest \<and> topo_ok rest)"

text \<open>
  The number of operands the \<^verbatim>\<open>compute\<close> method of an operator takes. In a graph built
  by applying operators, every computed node has that many inputs and a leaf has none.
\<close>

fun arity :: "op \<Rightarrow> nat" where
  "arity EWiseAdd = 2"
| "arity EWiseMul = 2"
| "arity EWiseDiv = 2"
| "arity MatMul = 2"
| "arity _ = 1"

definition arity_ok :: "node \<Rightarrow> bool" where
  "arity_ok out_node \<longleftrightarrow>
     list_all (\<lambda>u. case op u of None \<Rightarrow> inputs u = [] | Some f \<Rightarrow> length (inputs u) = arity f)
       (subnodes out_node)"

text \<open>
  Modelled from the spec: the gradient of a node after \<^verbatim>\<open>backward()\<close> has been called on
  an output node (autograd.py is missing): the entry of the node in the result of the
  pass, absent for a node the pass did not reach.
\<close>

definition grad_of :: "node \<Rightarrow> node \<Rightarrow> error + ndarray option" where
  "grad_of out_node v = and_then (backward out_node) (\<lambda>grads. Inr (grads (nid v)))"

text \<open>
  The contributions a node \<open>u\<close> sends to the node with identity \<open>x\<close> when the gradients
  recorded by a pass are \<open>grads\<close>: the results of the gradient of the operator of \<open>u\<close>,
  called with the gradient of \<open>u\<close>, at the positions where the node \<open>x\<close> is an input of
  \<open>u\<close>. A leaf sends nothing.
\<close>

definition contributions :: "(nat \<rightharpoonup> ndarray) \<Rightarrow> node \<Rightarrow> nat \<Rightarrow> ndarray list" where
  "contributions grads u x =
     (case op u of
        None \<Rightarrow> []
      | Some f \<Rightarrow>
          (case grads (nid u) of
             None \<Rightarrow> []
           | Some g \<Rightarrow>
               (case gradient f g u of
                  Inl e \<Rightarrow> []
                | Inr gs \<Rightarrow> map snd (filter (\<lambda>(w, g). nid w = x) (zip (inputs u) gs)))))"

text \<open>
  In the graph below \<open>out_node\<close>, the node \<open>v\<close> is an input of no node other than those
  of the list \<open>us\<close>.
\<close>

definition only_consumers :: "node \<Rightarrow> node \<Rightarrow> node list \<Rightarrow> bool" where
  "only_consumers out_node v us \<longleftrightarrow>
     list_all (\<lambda>u. v \<in> set (inputs u) \<longrightarrow> u \<in> set us) (subnodes out_node)"

section \<open>Index arithmetic of the array backend\<close>

lemma length_unravel: "length (unravel s k) = length s"
  by (induction s arbitrary: k) auto

lemma unravel_in_bounds: "k < prod_list s \<Longrightarrow> in_bounds s (unravel s k)"
proof (induction s arbitrary: k)
  case Nil
  then show ?case by (simp add: in_bounds_def)
next
  case (Cons d ds)
  have pos: "0 < prod_list ds" using Cons.prems by (cases "prod_list ds = 0") auto
  have "k div prod_list ds < d"
    using Cons.prems pos by (simp add: less_mult_imp_div_less mult.commute)
  moreover have "in_bounds ds (unravel ds (k mod prod_list ds))"
    using Cons.IH pos by simp
  ultimately show ?case by (simp add: in_bounds_def)
qed

lemma ravel_unravel: "k < prod_list s \<Longrightarrow> ravel s (unravel s k) = k"
proof (induction s arbitrary: k)
  case Nil
  then show ?case by simp
next
  case (Cons d ds)
  have pos: "0 < prod_list ds" using Cons.prems by (cases "prod_list ds = 0") auto
  then show ?case using Cons.IH [of "k mod prod_list ds"] by simp
qed

lemma ravel_less: "in_bounds s idx \<Longrightarrow> ravel s idx < prod_list s"
proof (induction s idx rule: ravel.induct)
  case (1 d ds i "is")
  then have i: "i < d" and r: "ravel ds is < prod_list ds" by (auto simp: in_bounds_def)
  have "i * prod_list ds + ravel ds is < Suc i * prod_list ds" using r by simp
  also have "\<dots> \<le> d * prod_list ds" using i by (intro mult_le_mono1) simp
  finally show ?case by simp
qed (auto simp: in_bounds_def)

lemma unravel_ravel: "in_bounds s idx \<Longrightarrow> unravel s (ravel s idx) = idx"
proof (induction s idx rule: ravel.induct)
  case (1 d ds i "is")
  then have r: "ravel ds is < prod_list ds" and ib: "in_bounds ds is"
    using ravel_less [of ds "is"] by (auto simp: in_bounds_def)
  then show ?case using 1 by simp
qed (auto simp: in_bounds_def)

lemma in_bounds_length: "in_bounds s u \<Longrightarrow> length u = length s"
  by (simp add: in_bounds_def list_all2_lengthD)

lemma in_bounds_nth: "in_bounds s u \<Longrightarrow> k < length s \<Longrightarrow> u ! k < s ! k"
  by (simp add: in_bounds_def list_all2_conv_all_nth)

lemma src_index_same: "in_bounds s u \<Longrightarrow> src_index s u = u"
proof -
  assume ib: "in_bounds s u"
  then have len: "length u = length s" by (simp add: in_bounds_def list_all2_lengthD)
  have "\<And>k. k < length s \<Longrightarrow> u ! k < s ! k"
    using ib by (simp add: in_bounds_def list_all2_conv_all_nth)
  then have "\<And>k. k < length s \<Longrightarrow> s ! k = 1 \<Longrightarrow> u ! k = 0"
    by (metis less_one)
  then show ?thesis
    using len by (auto simp: src_index_def intro!: nth_equalityI)
qed

lemma broadcast_shapes_same: "broadcast_shapes s s = Some s"
proof -
  have "map2 bc_dim s s = map Some s" by (induction s) auto
  then show ?thesis by (auto simp: broadcast_shapes_def pad_shape_def Let_def comp_def)
qed

lemma np_fromfunction_cong:
  "(\<And>u. in_bounds s u \<Longrightarrow> f u = g u) \<Longrightarrow> np_fromfunction s f = np_fromfunction s g"
  by (simp add: np_fromfunction_def unravel_in_bounds)

lemma np_fromfunction_ravel:
  "length xs = prod_list s \<Longrightarrow> np_fromfunction s (\<lambda>u. f (xs ! ravel s u)) = NDArray s (map f xs)"
  by (auto simp: np_fromfunction_def ravel_unravel intro!: nth_equalityI)

lemma np_binop_same_shape:
  assumes "well_shaped a" "well_shaped b" "shape a = shape b"
  shows "np_binop f a b = Inr (NDArray (shape a) (map2 f (data a) (data b)))"
proof -
  have "np_fromfunction (shape a)
          (\<lambda>u. f (item a (src_index (shape a) u)) (item b (src_index (shape b) u)))
        = np_fromfunction (shape a) (\<lambda>u. f (data a ! ravel (shape a) u) (data b ! ravel (shape a) u))"
    using assms by (intro np_fromfunction_cong) (simp add: src_index_same item_def)
  also have "\<dots> = NDArray (shape a) (map2 f (data a) (data b))"
    using assms
    by (auto simp: np_fromfunction_def well_shaped_def ravel_unravel intro!: nth_equalityI)
  finally show ?thesis by (simp add: np_binop_def broadcast_shapes_same assms(3)[symmetric])
qed

lemma broadcast_shapes_Nil: "broadcast_shapes s [] = Some s"
proof -
  have h: "map2 bc_dim s (replicate (length s) (Suc 0)) = map Some s"
    by (induction s) auto
  have p1: "pad_shape (max (length s) (length [])) s = s"
    and p2: "pad_shape (max (length s) (length [])) [] = replicate (length s) (Suc 0)"
    by (simp_all add: pad_shape_def)
  show ?thesis
    unfolding broadcast_shapes_def Let_def p1 p2 h by (simp add: o_def image_iff)
qed

lemma src_index_Nil: "src_index [] u = []"
  by (simp add: src_index_def)

lemma np_binop_scalar:
  assumes "well_shaped a"
  shows "np_binop f a (np_scalar c) = Inr (np_map (\<lambda>x. f x c) a)"
proof -
  have "np_fromfunction (shape a)
          (\<lambda>u. f (item a (src_index (shape a) u)) (item (np_scalar c) (src_index [] u)))
        = np_fromfunction (shape a) (\<lambda>u. f (data a ! ravel (shape a) u) c)"
    using assms by (intro np_fromfunction_cong) (simp add: src_index_same item_def src_index_Nil np_scalar_def)
  also have "\<dots> = NDArray (shape a) (map (\<lambda>x. f x c) (data a))"
    using assms by (intro np_fromfunction_ravel) (simp add: well_shaped_def)
  finally show ?thesis by (simp add: np_binop_def broadcast_shapes_Nil np_scalar_def np_map_def)
qed

lemma well_shaped_map2:
  "well_shaped a \<Longrightarrow> well_shaped b \<Longrightarrow> shape a = shape b \<Longrightarrow>
   well_shaped (NDArray (shape a) (map2 f (data a) (data b)))"
  by (simp add: well_shaped_def)

lemma well_shaped_np_map: "well_shaped a \<Longrightarrow> well_shaped (np_map f a)"
  by (simp add: well_shaped_def np_map_def)

section \<open>Elementwise operators\<close>

text \<open>
  C1. \<^verbatim>\<open>PowerScalar.compute\<close> raises every element to the integer power. The claim
  that the gradient call returns \<open>out_grad * n * x^(n-1)\<close> does not hold of the source:
  \<^verbatim>\<open>PowerScalar.gradient\<close> is a placeholder that raises \<^verbatim>\<open>NotImplementedError\<close>
  for every exponent, incoming gradient and node.
\<close>

theorem PowerScalar_gradient_not_implemented:
  "PowerScalar_compute n x = Inr (NDArray (shape x) (map (\<lambda>v. v powi n) (data x)))
   \<and> gradient (PowerScalar n) out_grad node = Inl NotImplementedError"
  by (simp add: PowerScalar_compute_def np_map_def PowerScalar_gradient_def)

text \<open>
  C3. For a well-shaped input \<open>x\<close> and an incoming gradient of the same shape, the forward
  of ReLU is the elementwise maximum of \<open>x\<close> and 0, and the gradient is \<open>out_grad\<close>
  where the forward input is positive and 0 elsewhere. At a position where the input is
  exactly 0 the forward output and the gradient are both 0.
\<close>

theorem ReLU_forward_and_gradient:
  assumes "well_shaped x" and "well_shaped out_grad" and "shape out_grad = shape x"
    and "inputs node = [nx]" and "cached_data nx = x"
  shows "ReLU_compute x = Inr (NDArray (shape x) (map (\<lambda>v. max v 0) (data x)))
       \<and> ReLU_gradient out_grad node =
           Inr [NDArray (shape x)
                  (map2 (\<lambda>g v. if v > 0 then g else 0) (data out_grad) (data x))]
       \<and> (\<forall>i < length (data x). data x ! i = 0 \<longrightarrow>
             max (data x ! i) 0 = 0 \<and>
             map2 (\<lambda>g v. if v > 0 then g else 0) (data out_grad) (data x) ! i = 0)"
proof -
  let ?mask = "np_map (\<lambda>v. if v > 0 then 1 else 0) x"
  have fwd: "ReLU_compute x = Inr (NDArray (shape x) (map (\<lambda>v. max v 0) (data x)))"
    using assms(1) by (simp add: ReLU_compute_def np_binop_scalar np_map_def)
  have "well_shaped ?mask" and "shape out_grad = shape ?mask"
    using assms by (simp_all add: well_shaped_def np_map_def)
  then have "EWiseMul_compute out_grad ?mask =
      Inr (NDArray (shape out_grad) (map2 (*) (data out_grad) (data ?mask)))"
    unfolding EWiseMul_compute_def using assms(2) by (rule np_binop_same_shape [rotated])
  moreover have "map2 (*) (data out_grad) (data ?mask) =
      map2 (\<lambda>g v. if v > 0 then g else 0) (data out_grad) (data x)"
    by (auto simp: np_map_def intro!: nth_equalityI)
  ultimately have grad: "ReLU_gradient out_grad node =
      Inr [NDArray (shape x) (map2 (\<lambda>g v. if v > 0 then g else 0) (data out_grad) (data x))]"
    using assms by (simp add: ReLU_gradient_def)
  have len: "length (data out_grad) = length (data x)"
    using assms by (simp add: well_shaped_def)
  show ?thesis using fwd grad len by simp
qed

theorem ReLU_forward_and_gradient_witness:
  "ReLU_compute (NDArray [3] [- 1, 0, 2]) = Inr (NDArray [3] [0, 0, 2])
   \<and> ReLU_gradient (NDArray [3] [5, 6, 7])
        (Node 1 (Some ReLU) [Node 0 None [] (NDArray [3] [- 1, 0, 2])] (NDArray [3] [0, 0, 2]))
      = Inr [NDArray [3] [0, 0, 7]]"
  using ReLU_forward_and_gradient [of "NDArray [3] [- 1, 0, 2]" "NDArray [3] [5, 6, 7]"
      "Node 1 (Some ReLU) [Node 0 None [] (NDArray [3] [- 1, 0, 2])] (NDArray [3] [0, 0, 2])"
      "Node 0 None [] (NDArray [3] [- 1, 0, 2])"]
  by (simp add: well_shaped_def)

text \<open>
  C7. For well-shaped tensors of one shape with a nowhere-zero denominator, the forward
  of \<^verbatim>\<open>EWiseDiv\<close> is the elementwise quotient; the gradient is \<open>out_grad / rhs\<close> for
  the numerator and \<open>- out_grad * lhs / rhs\<^sup>2\<close> for the denominator.
\<close>

theorem EWiseDiv_forward_and_gradient:
  assumes "well_shaped lhs" and "well_shaped rhs" and "well_shaped out_grad"
    and "shape rhs = shape lhs" and "shape out_grad = shape lhs"
    and "0 \<notin> set (data rhs)"
    and "inputs node = [nl, nr]" and "cached_data nl = lhs" and "cached_data nr = rhs"
  shows "EWiseDiv_compute lhs rhs = Inr (NDArray (shape lhs) (map2 (/) (data lhs) (data rhs)))
       \<and> EWiseDiv_gradient out_grad node =
           Inr [NDArray (shape lhs) (map2 (/) (data out_grad) (data rhs)),
                NDArray (shape lhs)
                  (map (\<lambda>(g, l, r). - g * l / r ^ 2)
                     (zip (data out_grad) (zip (data lhs) (data rhs))))]"
proof -
  let ?s = "shape lhs"
  have fwd: "EWiseDiv_compute lhs rhs = Inr (NDArray ?s (map2 (/) (data lhs) (data rhs)))"
    using assms by (simp add: EWiseDiv_compute_def np_binop_same_shape)
  have g1: "EWiseDiv_compute out_grad rhs = Inr (NDArray ?s (map2 (/) (data out_grad) (data rhs)))"
    using assms by (simp add: EWiseDiv_compute_def np_binop_same_shape)
  let ?ng = "np_map uminus out_grad"
  have ng: "well_shaped ?ng" "shape ?ng = ?s"
    using assms by (simp_all add: well_shaped_def np_map_def)
  let ?t = "NDArray ?s (map2 (*) (data ?ng) (data lhs))"
  have t: "EWiseMul_compute ?ng lhs = Inr ?t"
    using ng assms(1) by (simp add: EWiseMul_compute_def np_binop_same_shape)
  have wt: "well_shaped ?t"
    using ng assms(1) by (simp add: well_shaped_def)
  let ?p = "np_map (\<lambda>x. x powi (- 2)) rhs"
  have p: "well_shaped ?p" "shape ?p = ?s"
    using assms by (simp_all add: well_shaped_def np_map_def)
  have g2: "EWiseMul_compute ?t ?p = Inr (NDArray ?s (map2 (*) (data ?t) (data ?p)))"
    using wt p np_binop_same_shape [of ?t ?p "(*)"] by (simp add: EWiseMul_compute_def)
  have len: "length (data out_grad) = length (data lhs)" "length (data rhs) = length (data lhs)"
    using assms by (simp_all add: well_shaped_def)
  have "map2 (*) (data ?t) (data ?p) =
      map (\<lambda>(g, l, r). - g * l / r ^ 2) (zip (data out_grad) (zip (data lhs) (data rhs)))"
    using len by (auto simp: np_map_def power_int_minus field_simps intro!: nth_equalityI)
  with g2 have g2': "EWiseMul_compute ?t ?p =
      Inr (NDArray ?s (map (\<lambda>(g, l, r). - g * l / r ^ 2)
                         (zip (data out_grad) (zip (data lhs) (data rhs)))))"
    by simp
  show ?thesis
    using fwd g1 t g2' assms(7-9)
    by (simp add: EWiseDiv_gradient_def Negate_compute_def PowerScalar_compute_def)
qed

theorem EWiseDiv_forward_and_gradient_witness:
  "EWiseDiv_compute (NDArray [2] [6, 1]) (NDArray [2] [2, 4]) = Inr (NDArray [2] [3, 1 / 4])
   \<and> EWiseDiv_gradient (NDArray [2] [1, 8])
        (Node 2 (Some EWiseDiv)
           [Node 0 None [] (NDArray [2] [6, 1]), Node 1 None [] (NDArray [2] [2, 4])]
           (NDArray [2] [3, 1 / 4]))
      = Inr [NDArray [2] [1 / 2, 2], NDArray [2] [- 3 / 2, - 1 / 2]]"
  using EWiseDiv_forward_and_gradient [of "NDArray [2] [6, 1]" "NDArray [2] [2, 4]"
      "NDArray [2] [1, 8]"
      "Node 2 (Some EWiseDiv)
           [Node 0 None [] (NDArray [2] [6, 1]), Node 1 None [] (NDArray [2] [2, 4])]
           (NDArray [2] [3, 1 / 4])"
      "Node 0 None [] (NDArray [2] [6, 1])" "Node 1 None [] (NDArray [2] [2, 4])"]
  by (simp add: well_shaped_def)

section \<open>Reshape\<close>

lemma prod_list_infer:
  "prod_list (map (\<lambda>d. if d < 0 then c else nat d) shp) =
   c ^ length (filter (\<lambda>d. d < 0) shp) * prod_list (map nat (filter (\<lambda>d. \<not> d < 0) shp))"
  by (induction shp) auto

lemma infer_shape_prod: "infer_shape n shp = Inr s \<Longrightarrow> prod_list s = n"
proof -
  assume a: "infer_shape n shp = Inr s"
  show ?thesis
  proof (cases "filter (\<lambda>d. d < 0) shp")
    case Nil
    with a show ?thesis by (auto simp: infer_shape_def split: if_splits)
  next
    case (Cons m ms)
    note c = Cons
    show ?thesis
    proof (cases ms)
      case Nil
      let ?p = "prod_list (map nat (filter (\<lambda>d. \<not> d < 0) shp))"
      from a c Nil have s: "s = map (\<lambda>d. if d < 0 then n div ?p else nat d) shp"
        and m: "n mod ?p = 0"
        by (auto simp: infer_shape_def Let_def split: if_splits)
      have "prod_list s = (n div ?p) * ?p"
        unfolding s prod_list_infer using c Nil by simp
      with m show ?thesis by auto
    next
      case (Cons m' ms')
      with a c show ?thesis by (auto simp: infer_shape_def split: if_splits)
    qed
  qed
qed

lemma infer_shape_nat: "prod_list s = n \<Longrightarrow> infer_shape n (map int s) = Inr s"
proof -
  assume p: "prod_list s = n"
  have "filter (\<lambda>d. d < 0) (map int s) = []" by (induction s) auto
  moreover have "map nat (map int s) = s" by (induction s) auto
  ultimately show ?thesis using p by (simp add: infer_shape_def)
qed

lemma np_reshape_nat:
  "prod_list s = prod_list (shape a) \<Longrightarrow> np_reshape a (map int s) = Inr (NDArray s (data a))"
  by (simp add: np_reshape_def infer_shape_nat)

lemma np_reshape_round_trip:
  assumes "np_reshape x shp = Inr y"
  shows "data y = data x \<and> np_reshape y (map int (shape x)) = Inr x"
proof -
  from assms obtain s where s: "infer_shape (prod_list (shape x)) shp = Inr s"
    and y: "y = NDArray s (data x)"
    by (cases "infer_shape (prod_list (shape x)) shp") (auto simp: np_reshape_def)
  have "prod_list (shape x) = prod_list (shape y)"
    using infer_shape_prod [OF s] y by simp
  then have "np_reshape y (map int (shape x)) = Inr (NDArray (shape x) (data y))"
    by (rule np_reshape_nat)
  with y show ?thesis by simp
qed

text \<open>
  C9. For a tensor \<open>x\<close> and a shape \<open>shapeB\<close> with the same element count, reshaping
  \<open>x\<close> to \<open>shapeB\<close> and back to the shape of \<open>x\<close> gives \<open>x\<close> again, and the gradient
  of \<^verbatim>\<open>Reshape\<close> is \<open>out_grad\<close> reshaped to the shape of the operand.
\<close>

theorem Reshape_round_trip:
  assumes "prod_list shapeB = prod_list (shape x)"
    and "shape out_grad = shapeB"
    and "inputs node = [nx]" and "cached_data nx = x"
  shows "reshape x (map int shapeB) = Inr (NDArray shapeB (data x))
       \<and> reshape (NDArray shapeB (data x)) (map int (shape x)) = Inr x
       \<and> Reshape_gradient (map int shapeB) out_grad node = Inr [NDArray (shape x) (data out_grad)]"
proof -
  have 1: "reshape x (map int shapeB) = Inr (NDArray shapeB (data x))"
    using assms(1) by (simp add: reshape_def Reshape_compute_def np_reshape_nat)
  have 2: "reshape (NDArray shapeB (data x)) (map int (shape x)) = Inr x"
    using assms(1) np_reshape_nat [of "shape x" "NDArray shapeB (data x)"]
    by (simp add: reshape_def Reshape_compute_def)
  have 3: "reshape out_grad (map int (shape x)) = Inr (NDArray (shape x) (data out_grad))"
    using assms(1,2) by (simp add: reshape_def Reshape_compute_def np_reshape_nat)
  show ?thesis using 1 2 3 assms(3,4) by (simp add: Reshape_gradient_def)
qed

theorem Reshape_round_trip_witness:
  "reshape (NDArray [2, 3] [1, 2, 3, 4, 5, 6]) [3, 2] = Inr (NDArray [3, 2] [1, 2, 3, 4, 5, 6])
   \<and> reshape (NDArray [3, 2] [1, 2, 3, 4, 5, 6]) [2, 3] = Inr (NDArray [2, 3] [1, 2, 3, 4, 5, 6])
   \<and> Reshape_gradient [3, 2] (NDArray [3, 2] [1, 1, 1, 1, 1, 1])
        (Node 1 (Some (Reshape [3, 2])) [Node 0 None [] (NDArray [2, 3] [1, 2, 3, 4, 5, 6])]
           (NDArray [3, 2] [1, 2, 3, 4, 5, 6]))
      = Inr [NDArray [2, 3] [1, 1, 1, 1, 1, 1]]"
  using Reshape_round_trip [of "[3, 2]" "NDArray [2, 3] [1, 2, 3, 4, 5, 6]"
      "NDArray [3, 2] [1, 1, 1, 1, 1, 1]"
      "Node 1 (Some (Reshape [3, 2])) [Node 0 None [] (NDArray [2, 3] [1, 2, 3, 4, 5, 6])]
           (NDArray [3, 2] [1, 2, 3, 4, 5, 6])"
      "Node 0 None [] (NDArray [2, 3] [1, 2, 3, 4, 5, 6])"]
  by simp

section \<open>Summation: the constructor\<close>

lemma fold_sum_axis_single:
  "distinct xs \<Longrightarrow>
   fold (\<lambda>k b. if k \<in> set [j] then sum_axis b k else b) xs a =
   (if j \<in> set xs then sum_axis a j else a)"
  by (induction xs arbitrary: a) auto

lemma reduce_axes_single:
  "j < length (shape a) \<Longrightarrow> reduce_axes a [j] = sum_axis a j"
  unfolding reduce_axes_def by (subst fold_sum_axis_single) simp_all

lemma np_sum_single:
  "np_sum a (Some [k]) =
   (if - int (length (shape a)) \<le> k \<and> k < int (length (shape a))
    then Inr (sum_axis a (nat (k mod int (length (shape a)))))
    else Inl AxisError)"
proof (cases "- int (length (shape a)) \<le> k \<and> k < int (length (shape a))")
  case True
  then have "0 < int (length (shape a))" by linarith
  then have "nat (k mod int (length (shape a))) < length (shape a)"
    by (simp add: nat_less_iff)
  then show ?thesis using True by (simp add: np_sum_def reduce_axes_single)
next
  case False
  then show ?thesis by (auto simp: np_sum_def)
qed

text \<open>
  C10. \<^verbatim>\<open>Summation.__init__\<close> stores a bare integer axis \<open>k\<close> as the one-element tuple
  \<open>(k,)\<close>, so \<^verbatim>\<open>summation(a, k)\<close> and \<^verbatim>\<open>summation(a, (k,))\<close> build the same
  operator, with the same forward reduction and the same gradient: the forward sums over
  the single axis \<open>k\<close> (counted from the end when negative) and raises when \<open>k\<close> is not
  an axis of \<open>a\<close>, and the gradient is that of the operator with axes \<open>(k,)\<close>.
\<close>

theorem Summation_int_axis_is_singleton_tuple:
  "Summation_init (AxesInt k) = Some [k]
   \<and> Summation_init (AxesInt k) = Summation_init (AxesTuple [k])
   \<and> summation a (AxesInt k) = summation a (AxesTuple [k])
   \<and> compute (Summation (Summation_init (AxesInt k))) [a] =
       compute (Summation (Summation_init (AxesTuple [k]))) [a]
   \<and> gradient (Summation (Summation_init (AxesInt k))) out_grad node =
       gradient (Summation (Summation_init (AxesTuple [k]))) out_grad node
   \<and> gradient (Summation (Summation_init (AxesInt k))) out_grad node =
       Summation_gradient (Some [k]) out_grad node
   \<and> summation a (AxesInt k) = np_sum a (Some [k])
   \<and> (- int (length (shape a)) \<le> k \<and> k < int (length (shape a)) \<longrightarrow>
        summation a (AxesInt k) = Inr (sum_axis a (nat (k mod int (length (shape a))))))
   \<and> (\<not> (- int (length (shape a)) \<le> k \<and> k < int (length (shape a))) \<longrightarrow>
        summation a (AxesInt k) = Inl AxisError)"
  by (simp add: summation_def Summation_compute_def np_sum_single)

lemma sum_axis_example:
  "sum_axis (NDArray [2, 3] [1, 2, 3, 4, 5, 6]) 1 = NDArray [2] [6, 15]"
  by code_simp

theorem Summation_int_axis_is_singleton_tuple_witness:
  "Summation_init (AxesInt (- 1)) = Some [- 1]
   \<and> summation (NDArray [2, 3] [1, 2, 3, 4, 5, 6]) (AxesInt (- 1)) =
       summation (NDArray [2, 3] [1, 2, 3, 4, 5, 6]) (AxesTuple [- 1])
   \<and> summation (NDArray [2, 3] [1, 2, 3, 4, 5, 6]) (AxesInt (- 1)) = Inr (NDArray [2] [6, 15])"
proof -
  let ?a = "NDArray [2, 3] [1, 2, 3, 4, 5, 6]"
  note t = Summation_int_axis_is_singleton_tuple [of "- 1" ?a]
  have v: "- int (length (shape ?a)) \<le> - 1 \<and> - 1 < int (length (shape ?a))" by simp
  have j: "nat (- 1 mod int (length (shape ?a))) = 1" by code_simp
  from t v have "summation ?a (AxesInt (- 1)) = Inr (sum_axis ?a (nat (- 1 mod int (length (shape ?a)))))"
    by blast
  then have "summation ?a (AxesInt (- 1)) = Inr (NDArray [2] [6, 15])"
    unfolding j sum_axis_example .
  with t show ?thesis by blast
qed

section \<open>Transpose\<close>

lemma item_np_fromfunction: "in_bounds s u \<Longrightarrow> item (np_fromfunction s f) u = f u"
  by (simp add: item_def np_fromfunction_def ravel_less unravel_ravel)

lemma np_fromfunction_item: "well_shaped x \<Longrightarrow> np_fromfunction (shape x) (item x) = x"
proof -
  assume w: "well_shaped x"
  have "item x = (\<lambda>u. data x ! ravel (shape x) u)"
    by (rule ext) (simp add: item_def)
  then show ?thesis
    using w np_fromfunction_ravel [of "data x" "shape x" "\<lambda>v. v"]
    by (cases x) (simp add: well_shaped_def)
qed

lemma well_shaped_np_fromfunction: "well_shaped (np_fromfunction s f)"
  by (simp add: well_shaped_def np_fromfunction_def)

lemma index_of_nth: "distinct p \<Longrightarrow> k < length p \<Longrightarrow> index_of p (p ! k) = k"
proof (induction p arbitrary: k)
  case Nil
  then show ?case by simp
next
  case (Cons a p)
  then show ?case by (cases k) auto
qed

lemma swap_perm_nth:
  "i < n \<Longrightarrow> j < n \<Longrightarrow> d < n \<Longrightarrow>
   [0..<n][i := j, j := i] ! d = (if d = j then i else if d = i then j else d)"
  by (simp add: nth_list_update)

lemma swap_perm_distinct: "i < n \<Longrightarrow> j < n \<Longrightarrow> distinct ([0..<n][i := j, j := i])"
  using distinct_swap [of i "[0..<n]" j] by simp

lemma swap_perm_set: "i < n \<Longrightarrow> j < n \<Longrightarrow> set ([0..<n][i := j, j := i]) = {0..<n}"
  using set_swap [of i "[0..<n]" j] by simp

lemma swap_perm_index_of:
  assumes "i < n" "j < n" "d < n"
  shows "index_of ([0..<n][i := j, j := i]) d = [0..<n][i := j, j := i] ! d"
proof -
  let ?p = "[0..<n][i := j, j := i]"
  have lt: "?p ! d < length ?p" using assms by (simp add: swap_perm_nth)
  have "?p ! (?p ! d) = d" using assms by (simp add: swap_perm_nth)
  then have "index_of ?p d = index_of ?p (?p ! (?p ! d))" by simp
  also have "\<dots> = ?p ! d"
    using swap_perm_distinct [OF assms(1,2)] lt by (rule index_of_nth)
  finally show ?thesis .
qed

lemma swap_perm_permute:
  assumes "i < n" "j < n" "length u = n"
  shows "map (\<lambda>d. u ! index_of ([0..<n][i := j, j := i]) d) [0..<n] = u[i := u ! j, j := u ! i]"
  using assms
  by (auto simp: swap_perm_index_of swap_perm_nth nth_list_update intro!: nth_equalityI)

lemma swap_perm_shape:
  assumes "i < n" "j < n" "length s = n"
  shows "map (\<lambda>q. s ! q) ([0..<n][i := j, j := i]) = s[i := s ! j, j := s ! i]"
  using assms by (auto simp: swap_perm_nth nth_list_update intro!: nth_equalityI)

lemma in_bounds_swap:
  assumes "i < length s" "j < length s" "in_bounds (s[i := s ! j, j := s ! i]) u"
  shows "in_bounds s (u[i := u ! j, j := u ! i])"
  using assms unfolding in_bounds_def list_all2_conv_all_nth
  by (auto simp: nth_list_update split: if_splits)

lemma swap_swap:
  "i < length u \<Longrightarrow> j < length u \<Longrightarrow>
   (u[i := u ! j, j := u ! i])[i := (u[i := u ! j, j := u ! i]) ! j,
                               j := (u[i := u ! j, j := u ! i]) ! i] = u"
  by (auto simp: nth_list_update intro!: nth_equalityI)

lemma np_transpose_swap:
  assumes "i < length (shape x)" "j < length (shape x)"
  shows "np_transpose x ([0..<length (shape x)][i := j, j := i]) =
         Inr (np_fromfunction ((shape x)[i := shape x ! j, j := shape x ! i])
                (\<lambda>u. item x (u[i := u ! j, j := u ! i])))"
proof -
  let ?n = "length (shape x)"
  let ?p = "[0..<?n][i := j, j := i]"
  let ?s' = "(shape x)[i := shape x ! j, j := shape x ! i]"
  have shp: "map (\<lambda>q. shape x ! q) ?p = ?s'"
    using assms by (simp add: swap_perm_shape)
  have "np_fromfunction ?s' (\<lambda>u. item x (map (\<lambda>d. u ! index_of ?p d) [0..<?n]))
      = np_fromfunction ?s' (\<lambda>u. item x (u[i := u ! j, j := u ! i]))"
  proof (rule np_fromfunction_cong)
    fix u assume "in_bounds ?s' u"
    then have "length u = ?n" by (simp add: in_bounds_def list_all2_lengthD)
    then show "item x (map (\<lambda>d. u ! index_of ?p d) [0..<?n]) = item x (u[i := u ! j, j := u ! i])"
      using assms by (simp add: swap_perm_permute)
  qed
  then show ?thesis
    using assms shp by (simp add: np_transpose_def swap_perm_set)
qed

lemma np_transpose_swap_twice:
  assumes "well_shaped x" "i < length (shape x)" "j < length (shape x)"
    and "np_transpose x ([0..<length (shape x)][i := j, j := i]) = Inr y"
  shows "np_transpose y ([0..<length (shape y)][i := j, j := i]) = Inr x"
proof -
  let ?s = "shape x"
  let ?s' = "?s[i := ?s ! j, j := ?s ! i]"
  have y: "y = np_fromfunction ?s' (\<lambda>u. item x (u[i := u ! j, j := u ! i]))"
    using assms(4) np_transpose_swap [OF assms(2,3)] by simp
  then have sy: "shape y = ?s'" by (simp add: np_fromfunction_def)
  have ij: "i < length (shape y)" "j < length (shape y)" using assms sy by simp_all
  have bk: "(shape y)[i := shape y ! j, j := shape y ! i] = ?s"
    unfolding sy using assms(2,3) by (rule swap_swap)
  have "np_fromfunction ?s (\<lambda>u. item y (u[i := u ! j, j := u ! i])) = np_fromfunction ?s (item x)"
  proof (rule np_fromfunction_cong)
    fix u assume u: "in_bounds ?s u"
    then have len: "length u = length ?s" by (simp add: in_bounds_def list_all2_lengthD)
    have "?s'[i := ?s' ! j, j := ?s' ! i] = ?s"
      using assms(2,3) by (rule swap_swap)
    then have "in_bounds (?s'[i := ?s' ! j, j := ?s' ! i]) u"
      using u by (simp only:)
    then have "in_bounds ?s' (u[i := u ! j, j := u ! i])"
      using in_bounds_swap [of i ?s' j u] assms by simp
    then have "item y (u[i := u ! j, j := u ! i]) =
        item x ((u[i := u ! j, j := u ! i])[i := (u[i := u ! j, j := u ! i]) ! j,
                                            j := (u[i := u ! j, j := u ! i]) ! i])"
      unfolding y by (rule item_np_fromfunction)
    also have "\<dots> = item x u"
      using assms(2,3) len swap_swap [of i u j] by (simp only:)
    finally show "item y (u[i := u ! j, j := u ! i]) = item x u" .
  qed
  then show ?thesis
    using np_transpose_swap [OF ij] bk assms(1) by (simp add: np_fromfunction_item)
qed


lemma py_index_less: "py_index n i = Inr k \<Longrightarrow> k < n"
  by (auto simp: py_index_def split: if_splits)

lemma transpose_t_pair:
  assumes "py_index (length (shape x)) i = Inr i'" and "py_index (length (shape x)) j = Inr j'"
  shows "transpose_t x (Some (i # j # rest)) =
         np_transpose x ([0..<length (shape x)][i' := j', j' := i'])"
  using assms py_index_less [OF assms(1)] py_index_less [OF assms(2)]
  by (simp add: transpose_t_def Transpose_compute_def Transpose_axes_def swap_entries_def)

lemma transpose_t_None:
  assumes "2 \<le> length (shape x)"
  shows "transpose_t x None =
         transpose_t x (Some [int (length (shape x)) - 2, int (length (shape x)) - 1])"
proof -
  let ?n = "length (shape x)"
  have a: "py_index ?n (- 1) = Inr (?n - 1)" "py_index ?n (- 2) = Inr (?n - 2)"
    "py_index ?n (int ?n - 2) = Inr (?n - 2)" "py_index ?n (int ?n - 1) = Inr (?n - 1)"
    using assms by (auto simp: py_index_def)
  have "[0..<?n][?n - 1 := ?n - 2, ?n - 2 := ?n - 1] = [0..<?n][?n - 2 := ?n - 1, ?n - 1 := ?n - 2]"
    using assms by (intro list_update_swap) simp
  then show ?thesis
    using a assms
    by (simp add: transpose_t_def Transpose_compute_def Transpose_axes_def swap_entries_def)
qed

text \<open>
  C8. For a well-shaped tensor \<open>x\<close> and two axes \<open>i\<close>, \<open>j\<close> that are valid Python indices
  into its shape (standing for the axes \<open>i'\<close> and \<open>j'\<close>), \<^verbatim>\<open>transpose(x, (i, j))\<close>
  succeeds, exchanges the two axes in the shape and in every multi-index, and applying it
  again gives \<open>x\<close> back. With the axes omitted and at least two dimensions the
  operator swaps the last two axes. The gradient of \<^verbatim>\<open>Transpose\<close> is \<open>out_grad\<close>
  transposed by the same axes.
\<close>

theorem Transpose_involution:
  assumes "well_shaped x"
    and "py_index (length (shape x)) i = Inr i'" and "py_index (length (shape x)) j = Inr j'"
  shows "(\<exists>y. transpose_t x (Some [i, j]) = Inr y
            \<and> shape y = (shape x)[i' := shape x ! j', j' := shape x ! i']
            \<and> (\<forall>u. in_bounds (shape y) u \<longrightarrow>
                   item y u = item x (u[i' := u ! j', j' := u ! i']))
            \<and> transpose_t y (Some [i, j]) = Inr x)
       \<and> (2 \<le> length (shape x) \<longrightarrow>
            transpose_t x None =
            transpose_t x (Some [int (length (shape x)) - 2, int (length (shape x)) - 1]))
       \<and> Transpose_gradient axes out_grad node =
           and_then (transpose_t out_grad axes) (\<lambda>g. Inr [g])"
proof -
  let ?n = "length (shape x)"
  let ?p = "[0..<?n][i' := j', j' := i']"
  let ?s' = "(shape x)[i' := shape x ! j', j' := shape x ! i']"
  let ?y = "np_fromfunction ?s' (\<lambda>u. item x (u[i' := u ! j', j' := u ! i']))"
  have lt: "i' < ?n" "j' < ?n" using assms(2,3) by (auto dest: py_index_less)
  have t1: "np_transpose x ?p = Inr ?y" using lt by (rule np_transpose_swap)
  have sy: "shape ?y = ?s'" by (simp add: np_fromfunction_def)
  then have ny: "length (shape ?y) = ?n" by simp
  have t2: "np_transpose ?y ([0..<length (shape ?y)][i' := j', j' := i']) = Inr x"
    using assms(1) lt t1 by (rule np_transpose_swap_twice)
  have 1: "transpose_t x (Some [i, j]) = Inr ?y"
    using transpose_t_pair [OF assms(2,3)] t1 by simp
  have 2: "transpose_t ?y (Some [i, j]) = Inr x"
    using transpose_t_pair [of ?y i i' j j' "[]"] assms(2,3) t2 ny by simp
  have 3: "\<forall>u. in_bounds (shape ?y) u \<longrightarrow> item ?y u = item x (u[i' := u ! j', j' := u ! i'])"
    unfolding sy by (simp add: item_np_fromfunction)
  from 1 2 3 sy have "\<exists>y. transpose_t x (Some [i, j]) = Inr y
            \<and> shape y = ?s'
            \<and> (\<forall>u. in_bounds (shape y) u \<longrightarrow>
                   item y u = item x (u[i' := u ! j', j' := u ! i']))
            \<and> transpose_t y (Some [i, j]) = Inr x"
    by blast
  then show ?thesis
    using transpose_t_None [of x] by (simp add: Transpose_gradient_def)
qed

lemma Transpose_compute_example: "Transpose_compute (Some [0, 1]) (NDArray [2, 3] [1, 2, 3, 4, 5, 6]) =
    Inr (NDArray [3, 2] [1, 4, 2, 5, 3, 6])"
  by code_simp

theorem Transpose_involution_witness:
  "(\<exists>y. transpose_t (NDArray [2, 3] [1, 2, 3, 4, 5, 6]) (Some [0, 1]) = Inr y
        \<and> shape y = [3, 2]
        \<and> transpose_t y (Some [0, 1]) = Inr (NDArray [2, 3] [1, 2, 3, 4, 5, 6]))
   \<and> transpose_t (NDArray [2, 3] [1, 2, 3, 4, 5, 6]) None =
       transpose_t (NDArray [2, 3] [1, 2, 3, 4, 5, 6]) (Some [0, 1])
   \<and> transpose_t (NDArray [2, 3] [1, 2, 3, 4, 5, 6]) (Some [0, 1]) =
       Inr (NDArray [3, 2] [1, 4, 2, 5, 3, 6])"
proof -
  have w: "well_shaped (NDArray [2, 3] [1, 2, 3, 4, 5, 6])"
    by (simp add: well_shaped_def)
  have i: "py_index (length (shape (NDArray [2, 3] [1, 2, 3, 4, 5, 6]))) 0 = Inr 0"
    and j: "py_index (length (shape (NDArray [2, 3] [1, 2, 3, 4, 5, 6]))) 1 = Inr 1"
    by (simp_all add: py_index_def)
  have ev: "transpose_t (NDArray [2, 3] [1, 2, 3, 4, 5, 6]) (Some [0, 1]) =
       Inr (NDArray [3, 2] [1, 4, 2, 5, 3, 6])"
    by (simp add: transpose_t_def Transpose_compute_example)
  from Transpose_involution [OF w i j] ev show ?thesis
    by auto
qed

section \<open>Summation: shapes and gradient\<close>

subsection \<open>Shape of a sum over axes\<close>

lemma shape_sum_axis: "shape (sum_axis a k) = take k (shape a) @ drop (Suc k) (shape a)"
  by (simp add: sum_axis_def np_fromfunction_def)

lemma nths_take_Suc:
  "m < length s \<Longrightarrow>
   nths (take (Suc m) s) A = nths (take m s) A @ (if m \<in> A then [s ! m] else [])"
  by (simp add: take_Suc_conv_app_nth nths_append min_def)

lemma shape_fold_sum_axis:
  "m \<le> length (shape b) \<Longrightarrow>
   shape (fold (\<lambda>k b. if k \<in> set R then sum_axis b k else b) (rev [0..<m]) b) =
   nths (take m (shape b)) {k. k \<notin> set R} @ drop m (shape b)"
proof (induction m arbitrary: b)
  case 0
  then show ?case by simp
next
  case (Suc m)
  let ?f = "\<lambda>k b. if k \<in> set R then sum_axis b k else b"
  let ?b' = "?f m b"
  have m: "m < length (shape b)" using Suc.prems by simp
  have len: "m \<le> length (shape ?b')" using m by (auto simp: shape_sum_axis)
  have "shape (fold ?f (rev [0..<Suc m]) b) = shape (fold ?f (rev [0..<m]) ?b')"
    by simp
  also have "\<dots> = nths (take m (shape ?b')) {k. k \<notin> set R} @ drop m (shape ?b')"
    using len by (rule Suc.IH)
  also have "\<dots> = nths (take (Suc m) (shape b)) {k. k \<notin> set R} @ drop (Suc m) (shape b)"
    using m by (simp add: shape_sum_axis nths_take_Suc Cons_nth_drop_Suc)
  finally show ?case .
qed

lemma shape_reduce_axes: "shape (reduce_axes a R) = nths (shape a) {k. k \<notin> set R}"
  using shape_fold_sum_axis [of "length (shape a)" a R] by (simp add: reduce_axes_def)

lemma well_shaped_sum_axis: "well_shaped (sum_axis a k)"
  by (simp add: sum_axis_def well_shaped_np_fromfunction)

lemma well_shaped_fold_sum_axis:
  "well_shaped b \<Longrightarrow>
   well_shaped (fold (\<lambda>k b. if k \<in> set R then sum_axis b k else b) ks b)"
  by (induction ks arbitrary: b) (simp_all add: well_shaped_sum_axis)

lemma well_shaped_reduce_axes: "well_shaped a \<Longrightarrow> well_shaped (reduce_axes a R)"
  by (simp add: reduce_axes_def well_shaped_fold_sum_axis)

text \<open>The shape with a 1 written at every reduced axis.\<close>

lemma prod_list_nths_kept:
  "prod_list (nths s {k. k \<notin> K}) =
   prod_list (map (\<lambda>k. if k \<in> K then 1 else s ! k) [0..<length s])"
proof (induction s rule: rev_induct)
  case Nil
  then show ?case by simp
next
  case (snoc x xs)
  have h: "map (\<lambda>k. if k \<in> K then 1 else (xs @ [x]) ! k) [0..<length xs] =
        map (\<lambda>k. if k \<in> K then 1 else xs ! k) [0..<length xs]"
    by (simp add: nth_append)
  show ?case using snoc by (simp add: nths_append h)
qed

lemma py_index_mod:
  "- int n \<le> d \<Longrightarrow> d < int n \<Longrightarrow> py_index n d = Inr (nat (d mod int n))"
proof -
  assume a: "- int n \<le> d" "d < int n"
  show ?thesis
  proof (cases "0 \<le> d")
    case True
    then show ?thesis using a by (simp add: py_index_def)
  next
    case False
    have "(d + int n) mod int n = d + int n"
      using a False by (intro mod_pos_pos_trivial) auto
    then have "d mod int n = int n + d" by simp
    then show ?thesis using a False by (simp add: py_index_def)
  qed
qed


subsection \<open>The gradient of Summation\<close>

lemma normalize_axes_Cons:
  assumes "normalize_axes n (d # ks) = Inr R"
  shows "- int n \<le> d \<and> d < int n \<and>
         (\<exists>R'. normalize_axes n ks = Inr R' \<and> R = nat (d mod int n) # R')"
  using assms by (cases "normalize_axes n ks") (auto split: if_splits)

lemma set_ones_normalize:
  "normalize_axes (length s) ks = Inr R \<Longrightarrow>
   set_ones s ks = Inr (map (\<lambda>k. if k \<in> set R then 1 else s ! k) [0..<length s])"
proof (induction ks arbitrary: s R)
  case Nil
  then show ?case by (simp add: map_nth)
next
  case (Cons d ks)
  let ?k = "nat (d mod int (length s))"
  from normalize_axes_Cons [OF Cons.prems] obtain R' where
    d: "- int (length s) \<le> d" "d < int (length s)"
    and R': "normalize_axes (length s) ks = Inr R'" and R: "R = ?k # R'"
    by blast
  have "normalize_axes (length (s[?k := 1])) ks = Inr R'" using R' by simp
  then have "set_ones (s[?k := 1]) ks =
      Inr (map (\<lambda>k. if k \<in> set R' then 1 else s[?k := 1] ! k) [0..<length (s[?k := 1])])"
    by (rule Cons.IH)
  moreover have "map (\<lambda>k. if k \<in> set R' then 1 else s[?k := 1] ! k) [0..<length (s[?k := 1])]
      = map (\<lambda>k. if k \<in> set R then 1 else s ! k) [0..<length s]"
    unfolding R by (auto simp: nth_list_update)
  ultimately show ?case using d by (simp add: py_index_mod)
qed

lemma broadcast_shapes_onto:
  assumes "list_all2 (\<lambda>d e. d = e \<or> d = 1) t s"
  shows "broadcast_shapes t s = Some s"
proof -
  have len: "length t = length s" using assms by (rule list_all2_lengthD)
  have h: "map2 bc_dim t s = map Some s"
    using assms by (induction t s rule: list_all2_induct) auto
  have p1: "pad_shape (max (length t) (length s)) t = t"
    and p2: "pad_shape (max (length t) (length s)) s = s"
    using len by (simp_all add: pad_shape_def)
  show ?thesis
    unfolding broadcast_shapes_def Let_def p1 p2 h by (simp add: o_def image_iff)
qed

lemma item_np_ones: "in_bounds s u \<Longrightarrow> item (np_ones s) u = 1"
  by (simp add: item_def np_ones_def ravel_less)

lemma np_binop_ones:
  assumes "list_all2 (\<lambda>d e. d = e \<or> d = 1) (shape a) s"
  shows "np_binop (*) a (np_ones s) = np_broadcast_to a s"
proof -
  have len: "length (shape a) = length s" using assms by (rule list_all2_lengthD)
  then have b: "broadcastable (shape a) s" using assms by (simp add: broadcastable_def)
  have "np_fromfunction s
          (\<lambda>u. item a (src_index (shape a) u) * item (np_ones s) (src_index (shape (np_ones s)) u))
      = np_fromfunction s (\<lambda>u. item a (src_index (shape a) u))"
    by (rule np_fromfunction_cong) (simp add: np_ones_def src_index_same item_np_ones [unfolded np_ones_def])
  then show ?thesis
    using b broadcast_shapes_onto [OF assms]
    by (simp add: np_binop_def np_broadcast_to_def np_ones_def)
qed

lemma ones_at_reduced_compatible:
  "list_all2 (\<lambda>d e. d = e \<or> d = 1) (map (\<lambda>k. if k \<in> K then 1 else s ! k) [0..<length s]) s"
  by (simp add: list_all2_conv_all_nth)

lemma Summation_gradient_reduced:
  assumes "inputs node = [nx]" and "cached_data nx = x"
    and "Summation_sum_shape axes (shape x) =
           Inr (map (\<lambda>k. if k \<in> set R then 1 else shape x ! k) [0..<length (shape x)])"
    and "shape out_grad = nths (shape x) {k. k \<notin> set R}"
  shows "\<exists>g. Summation_gradient axes out_grad node = Inr [g] \<and> shape g = shape x \<and>
           np_broadcast_to
             (NDArray (map (\<lambda>k. if k \<in> set R then 1 else shape x ! k) [0..<length (shape x)])
                (data out_grad))
             (shape x) = Inr g"
proof -
  let ?t = "map (\<lambda>k. if k \<in> set R then 1 else shape x ! k) [0..<length (shape x)]"
  let ?og = "NDArray ?t (data out_grad)"
  have p: "prod_list ?t = prod_list (shape out_grad)"
    unfolding assms(4) by (rule prod_list_nths_kept [symmetric])
  have r: "reshape out_grad (map int ?t) = Inr ?og"
    unfolding reshape_def Reshape_compute_def using p by (rule np_reshape_nat)
  have c: "list_all2 (\<lambda>d e. d = e \<or> d = 1) (shape ?og) (shape x)"
    using ones_at_reduced_compatible [of "set R" "shape x"] by simp
  then have m: "MulScalar_compute (np_ones (shape x)) ?og = np_broadcast_to ?og (shape x)"
    unfolding MulScalar_compute_def by (rule np_binop_ones)
  have b: "broadcastable (shape ?og) (shape x)"
    using c list_all2_lengthD [OF c] by (simp add: broadcastable_def)
  then obtain g where g: "np_broadcast_to ?og (shape x) = Inr g" and sg: "shape g = shape x"
    by (simp add: np_broadcast_to_def np_fromfunction_def)
  have "Summation_gradient axes out_grad node = Inr [g]"
    using assms(1-3) r m g by (simp add: Summation_gradient_def Let_def)
  then show ?thesis using g sg by blast
qed


text \<open>
  For \<^verbatim>\<open>axes\<close> equal to \<^verbatim>\<open>None\<close> or a non-empty tuple on which the forward
  reduction succeeds, and an incoming gradient of the shape of the forward output, the
  gradient succeeds and has the shape of the operand: \<open>out_grad\<close> is reshaped to size 1
  in each reduced axis and broadcast to the operand's shape.
\<close>

lemma Summation_gradient_shape:
  assumes "inputs node = [nx]" and "cached_data nx = x"
    and "Summation_compute axes x = Inr y" and "shape out_grad = shape y"
    and "axes \<noteq> Some []"
  shows "\<exists>g. Summation_gradient axes out_grad node = Inr [g] \<and> shape g = shape x"
proof (cases axes)
  case None
  let ?n = "length (shape x)"
  have "Summation_sum_shape axes (shape x) =
      Inr (map (\<lambda>k. if k \<in> set [0..<?n] then 1 else shape x ! k) [0..<?n])"
    using None by (simp add: Summation_sum_shape_def)
  moreover have "shape out_grad = nths (shape x) {k. k \<notin> set [0..<?n]}"
    using assms(3,4) None
    by (auto simp: Summation_compute_def np_sum_def shape_reduce_axes simp del: set_upt)
  ultimately show ?thesis
    using Summation_gradient_reduced [OF assms(1,2), of axes "[0..<?n]" out_grad] by blast
next
  case (Some ks)
  let ?n = "length (shape x)"
  from assms(3) Some obtain R where R: "normalize_axes ?n ks = Inr R"
    and y: "y = reduce_axes x R"
    by (cases "normalize_axes ?n ks")
       (auto simp: Summation_compute_def np_sum_def split: if_splits)
  from Some assms(5) obtain d ks' where ks: "ks = d # ks'" by (cases ks) auto
  have "Summation_sum_shape axes (shape x) =
      Inr (map (\<lambda>k. if k \<in> set R then 1 else shape x ! k) [0..<?n])"
    using Some ks set_ones_normalize [OF R] by (simp add: Summation_sum_shape_def)
  moreover have "shape out_grad = nths (shape x) {k. k \<notin> set R}"
    using assms(4) y by (simp add: shape_reduce_axes)
  ultimately show ?thesis
    using Summation_gradient_reduced [OF assms(1,2), of axes R out_grad] by blast
qed

text \<open>
  C5. The claim that the gradient of \<^verbatim>\<open>Summation\<close> has the operand's shape for every
  axes argument does not hold for the empty tuple. The forward computation with
  \<^verbatim>\<open>axes=()\<close> reduces no axis and returns the operand, so the incoming gradient has
  the operand's shape; \<^verbatim>\<open>Summation.gradient\<close> tests \<^verbatim>\<open>if self.axes\<close>, takes the empty
  tuple for \<^verbatim>\<open>None\<close>, and reshapes the gradient to size 1 in every axis, which raises
  for an operand of more than one element.
\<close>

theorem Summation_gradient_empty_tuple_raises:
  "summation (NDArray [2] [3, 4]) (AxesTuple []) = Inr (NDArray [2] [3, 4])
   \<and> Summation_gradient (Summation_init (AxesTuple [])) (NDArray [2] [1, 1])
        (Node 1 (Some (Summation (Summation_init (AxesTuple []))))
           [Node 0 None [] (NDArray [2] [3, 4])] (NDArray [2] [3, 4]))
      = Inl ValueError"
  by code_simp

section \<open>BroadcastTo\<close>

lemma reduce_dim_loop_upt:
  "reduce_dim_loop osh ish (int m - 1 - d) (rev [0..<m]) acc =
   acc @ rev (filter (\<lambda>k. int k - d < 0 \<or> osh ! k \<noteq> ish ! nat (int k - d)) [0..<m])"
proof (induction m arbitrary: acc)
  case 0
  then show ?case by simp
next
  case (Suc m)
  have "int (Suc m) - 1 - d - 1 = int m - 1 - d" by simp
  then show ?case using Suc.IH by (simp add: algebra_simps)
qed

lemma BroadcastTo_reduce_dim_eq:
  assumes "length ish \<le> length osh"
  shows "BroadcastTo_reduce_dim osh ish =
         rev (filter (\<lambda>k. k < length osh - length ish \<or>
                           osh ! k \<noteq> ish ! (k - (length osh - length ish)))
                [0..<length osh])"
proof -
  let ?d = "int (length osh) - int (length ish)"
  have "int (length ish) - 1 = int (length osh) - 1 - ?d" by simp
  then have "BroadcastTo_reduce_dim osh ish =
      rev (filter (\<lambda>k. int k - ?d < 0 \<or> osh ! k \<noteq> ish ! nat (int k - ?d)) [0..<length osh])"
    unfolding BroadcastTo_reduce_dim_def by (simp only: reduce_dim_loop_upt append_Nil)
  moreover have "\<And>k. (int k - ?d < 0) = (k < length osh - length ish)"
    using assms by auto
  moreover have "\<And>k. nat (int k - ?d) = k - (length osh - length ish)"
    using assms by auto
  ultimately show ?thesis by simp
qed

lemma normalize_axes_nat:
  "\<forall>k\<in>set ks. k < n \<Longrightarrow> normalize_axes n (map int ks) = Inr ks"
  by (induction ks) auto

lemma broadcast_kept_prod:
  assumes "broadcastable ish osh"
  shows "prod_list (nths osh {k. k \<notin> set (BroadcastTo_reduce_dim osh ish)}) = prod_list ish"
proof -
  let ?d = "length osh - length ish"
  let ?K = "set (BroadcastTo_reduce_dim osh ish)"
  have len: "length ish \<le> length osh" using assms by (simp add: broadcastable_def)
  have compat: "\<And>k. k < length ish \<Longrightarrow> ish ! k = osh ! (k + ?d) \<or> ish ! k = 1"
    using assms len by (auto simp: broadcastable_def list_all2_conv_all_nth add.commute)
  have K: "\<And>k. k < length osh \<Longrightarrow> (k \<in> ?K) = (k < ?d \<or> osh ! k \<noteq> ish ! (k - ?d))"
    by (simp add: BroadcastTo_reduce_dim_eq [OF len])
  have "map (\<lambda>k. if k \<in> ?K then 1 else osh ! k) [0..<length osh] = replicate ?d 1 @ ish"
  proof (rule nth_equalityI)
    show "length (map (\<lambda>k. if k \<in> ?K then 1 else osh ! k) [0..<length osh]) =
          length (replicate ?d 1 @ ish)"
      using len by simp
  next
    fix k assume "k < length (map (\<lambda>k. if k \<in> ?K then 1 else osh ! k) [0..<length osh])"
    then have k: "k < length osh" by simp
    show "map (\<lambda>k. if k \<in> ?K then 1 else osh ! k) [0..<length osh] ! k =
          (replicate ?d 1 @ ish) ! k"
    proof (cases "k < ?d")
      case True
      then show ?thesis using k K by (simp add: nth_append)
    next
      case False
      then have "k - ?d < length ish" using k len by auto
      from compat [OF this] False have "ish ! (k - ?d) = osh ! k \<or> ish ! (k - ?d) = 1"
        by simp
      then show ?thesis using k K False by (auto simp: nth_append)
    qed
  qed
  then show ?thesis by (simp add: prod_list_nths_kept)
qed


lemma BroadcastTo_gradient_general:
  assumes "broadcastable (shape x) shp" and "shape out_grad = shp"
    and "inputs node = [nx]" and "cached_data nx = x"
  shows "BroadcastTo_gradient shp' out_grad node =
         Inr [NDArray (shape x)
                (data (reduce_axes out_grad (BroadcastTo_reduce_dim shp (shape x))))]"
proof -
  let ?rd = "BroadcastTo_reduce_dim shp (shape x)"
  have len: "length (shape x) \<le> length shp" using assms(1) by (simp add: broadcastable_def)
  have rd: "?rd = rev (filter (\<lambda>k. k < length shp - length (shape x) \<or>
                           shp ! k \<noteq> shape x ! (k - (length shp - length (shape x))))
                [0..<length shp])"
    using len by (rule BroadcastTo_reduce_dim_eq)
  have "\<forall>k\<in>set ?rd. k < length (shape out_grad)" unfolding rd assms(2) by simp
  then have n: "normalize_axes (length (shape out_grad)) (map int ?rd) = Inr ?rd"
    by (rule normalize_axes_nat)
  have d: "distinct ?rd" unfolding rd by simp
  have s: "summation out_grad (AxesTuple (map int ?rd)) = Inr (reduce_axes out_grad ?rd)"
    using n d by (simp add: summation_def Summation_compute_def np_sum_def)
  have "prod_list (shape x) = prod_list (shape (reduce_axes out_grad ?rd))"
    using broadcast_kept_prod [OF assms(1)] by (simp add: shape_reduce_axes assms(2))
  then have r: "reshape (reduce_axes out_grad ?rd) (map int (shape x)) =
      Inr (NDArray (shape x) (data (reduce_axes out_grad ?rd)))"
    unfolding reshape_def Reshape_compute_def by (rule np_reshape_nat)
  show ?thesis
    using s r assms(2-4) by (simp add: BroadcastTo_gradient_def Let_def)
qed

lemma sum_ones_3_4_over_broadcast_axis:
  "data (reduce_axes (np_ones [3, 4]) (BroadcastTo_reduce_dim [3, 4] [3, 1])) = [4, 4, 4]"
  by code_simp



lemma BroadcastTo_gradient_example:
  "BroadcastTo_gradient [3, 4] (NDArray [3, 4] [1, 2, 3, 4, 5, 6, 7, 8, 9, 10, 11, 12])
     (Node 1 (Some (BroadcastTo [3, 4])) [Node 0 None [] (NDArray [3, 1] [1, 2, 3])]
        (NDArray [3, 4] [1, 1, 1, 1, 2, 2, 2, 2, 3, 3, 3, 3])) = Inr [NDArray [3, 1] [10, 26, 42]]"
  by code_simp


section \<open>MatMul\<close>

lemma bc_dim_absorb:
  "bc_dim d e = Some x \<Longrightarrow> bc_dim x e = Some x \<and> bc_dim d x = Some x"
  by (auto split: if_splits)

lemma map2_bc_dim_Some:
  assumes "length s = length r" "length t = length r"
    and "\<And>i. i < length r \<Longrightarrow> bc_dim (s ! i) (t ! i) = Some (r ! i)"
  shows "map2 bc_dim s t = map Some r"
  using assms by (auto intro!: nth_equalityI simp del: bc_dim.simps)

lemma broadcast_shapes_SomeD:
  assumes "broadcast_shapes s t = Some r"
  shows "length r = max (length s) (length t)"
    and "\<And>i. i < length r \<Longrightarrow>
           bc_dim (pad_shape (length r) s ! i) (pad_shape (length r) t ! i) = Some (r ! i)"
proof -
  let ?n = "max (length s) (length t)"
  let ?ds = "map2 bc_dim (pad_shape ?n s) (pad_shape ?n t)"
  have ls: "length (pad_shape ?n s) = ?n" and lt: "length (pad_shape ?n t) = ?n"
    by (simp_all add: pad_shape_def)
  from assms have none: "None \<notin> set ?ds" and r: "r = map the ?ds"
    by (auto simp: broadcast_shapes_def Let_def split: if_splits simp del: bc_dim.simps)
  show len: "length r = ?n" using r ls lt by simp
  fix i assume i: "i < length r"
  then have "?ds ! i \<in> set ?ds" using len ls lt by (intro nth_mem) simp
  with none have "?ds ! i \<noteq> None" by metis
  moreover have "?ds ! i = bc_dim (pad_shape ?n s ! i) (pad_shape ?n t ! i)"
    using i len ls lt by simp
  moreover have "r ! i = the (?ds ! i)" using i len ls lt r by simp
  ultimately show "bc_dim (pad_shape (length r) s ! i) (pad_shape (length r) t ! i) = Some (r ! i)"
    using len by (metis option.collapse)
qed

lemma broadcast_shapes_of_map2:
  assumes "length t \<le> length r" "length s \<le> length r" "length r = max (length s) (length t)"
    and "map2 bc_dim (pad_shape (length r) s) (pad_shape (length r) t) = map Some r"
  shows "broadcast_shapes s t = Some r"
  using assms(4) unfolding broadcast_shapes_def Let_def assms(3)[symmetric]
  by (simp add: o_def image_iff del: bc_dim.simps)

lemma pad_shape_self: "pad_shape (length r) r = r"
  by (simp add: pad_shape_def)

lemma length_pad_shape: "length s \<le> n \<Longrightarrow> length (pad_shape n s) = n"
  by (simp add: pad_shape_def)

lemma broadcast_shapes_absorb:
  assumes "broadcast_shapes s t = Some r"
  shows "broadcast_shapes r t = Some r" and "broadcast_shapes s r = Some r"
proof -
  note len = broadcast_shapes_SomeD(1) [OF assms]
  note nth = broadcast_shapes_SomeD(2) [OF assms]
  have ls: "length s \<le> length r" and lt: "length t \<le> length r" using len by simp_all
  have "map2 bc_dim (pad_shape (length r) r) (pad_shape (length r) t) = map Some r"
  proof (rule map2_bc_dim_Some)
    fix i assume "i < length r"
    from nth [OF this] show "bc_dim (pad_shape (length r) r ! i) (pad_shape (length r) t ! i)
        = Some (r ! i)"
      unfolding pad_shape_self by (rule bc_dim_absorb [THEN conjunct1])
  qed (simp_all add: pad_shape_self length_pad_shape lt)
  then show "broadcast_shapes r t = Some r"
    using lt by (intro broadcast_shapes_of_map2) simp_all
  have "map2 bc_dim (pad_shape (length r) s) (pad_shape (length r) r) = map Some r"
  proof (rule map2_bc_dim_Some)
    fix i assume "i < length r"
    from nth [OF this] show "bc_dim (pad_shape (length r) s ! i) (pad_shape (length r) r ! i)
        = Some (r ! i)"
      unfolding pad_shape_self by (rule bc_dim_absorb [THEN conjunct2])
  qed (simp_all add: pad_shape_self length_pad_shape ls)
  then show "broadcast_shapes s r = Some r"
    using ls by (intro broadcast_shapes_of_map2) simp_all
qed

lemma matmul_nd_shape:
  assumes "shape a = ba @ [n, k]" and "shape b = bb @ [k, m]"
    and "broadcast_shapes ba bb = Some bo"
  shows "\<exists>c. np_matmul a b = Inr c \<and> shape c = bo @ [n, m] \<and> well_shaped c"
proof -
  let ?c = "np_fromfunction (bo @ [n, m])
      (\<lambda>u. let bu = take (length bo) u; i = u ! length bo; j = u ! Suc (length bo)
           in sum_list (map (\<lambda>l. item a (src_index ba bu @ [i, l]) *
                                   item b (src_index bb bu @ [l, j])) [0..<k]))"
  have "matmul_nd a b = Inr ?c"
    using assms by (simp add: matmul_nd_def Let_def nth_append)
  moreover have "shape ?c = bo @ [n, m]" by (simp add: np_fromfunction_def)
  moreover have "NDArray (shape ?c) (data ?c) = ?c" by simp
  ultimately have "np_matmul a b = Inr ?c"
    using assms(1,2) by (simp add: np_matmul_def Let_def)
  then show ?thesis by (auto simp: np_fromfunction_def well_shaped_def)
qed

lemma transpose_t_None_shape:
  assumes "shape x = bb @ [k, m]"
  shows "\<exists>y. transpose_t x None = Inr y \<and> shape y = bb @ [m, k]"
proof -
  let ?n = "length (shape x)"
  have n: "?n = length bb + 2" using assms by simp
  have i: "py_index ?n (int ?n - 2) = Inr (length bb)"
    and j: "py_index ?n (int ?n - 1) = Inr (Suc (length bb))"
    using n by (simp_all add: py_index_def)
  have "transpose_t x None = transpose_t x (Some [int ?n - 2, int ?n - 1])"
    using n by (intro transpose_t_None) simp
  also have "\<dots> = np_transpose x ([0..<?n][length bb := Suc (length bb), Suc (length bb) := length bb])"
    using i j by (rule transpose_t_pair)
  also have "\<dots> = Inr (np_fromfunction
      ((shape x)[length bb := shape x ! Suc (length bb), Suc (length bb) := shape x ! length bb])
      (\<lambda>u. item x (u[length bb := u ! Suc (length bb), Suc (length bb) := u ! length bb])))"
    using n by (intro np_transpose_swap) simp_all
  finally show ?thesis
    using assms by (simp add: np_fromfunction_def nth_append list_update_append)
qed

lemma nths_not_upt: "nths s {k. k \<notin> set [0..<d]} = drop d s"
proof -
  have "{k. k \<notin> set [0..<d]} = {i. d \<le> i}" by auto
  then show ?thesis by (simp add: drop_eq_nths)
qed

lemma restore_shape_shape:
  assumes "shape dx = bo @ mat" and "shape x = ba @ mat" and "length ba \<le> length bo"
  shows "\<exists>dx'. restore_shape dx x = Inr dx' \<and>
           shape dx' = drop (length bo - length ba) bo @ mat \<and>
           dx' = (if shape dx = shape x then dx
                  else reduce_axes dx [0..<length (shape dx) - length (shape x)])"
proof (cases "shape dx = shape x")
  case True
  then have "bo = ba" using assms by simp
  then show ?thesis using True assms by (simp add: restore_shape_def)
next
  case False
  let ?d = "length (shape dx) - length (shape x)"
  have d: "?d = length bo - length ba" using assms by simp
  have "\<forall>k\<in>set [0..<?d]. k < length (shape dx)" by auto
  then have "normalize_axes (length (shape dx)) (map int [0..<?d]) = Inr [0..<?d]"
    by (rule normalize_axes_nat)
  then have "restore_shape dx x = Inr (reduce_axes dx [0..<?d])"
    using False by (simp add: restore_shape_def summation_def Summation_compute_def np_sum_def)
  moreover have "shape (reduce_axes dx [0..<?d]) = drop (length bo - length ba) bo @ mat"
    unfolding shape_reduce_axes nths_not_upt d using assms by simp
  ultimately show ?thesis using False by simp
qed


text \<open>
  Let \<open>a\<close> have shape \<open>ba @ [n, k]\<close> and \<open>b\<close> shape \<open>bb @ [k, m]\<close>, with batch shapes
  that broadcast to \<open>bo\<close>, and let \<open>out_grad\<close> have the shape \<open>bo @ [n, m]\<close> of the
  product. \<^verbatim>\<open>MatMul.gradient\<close> computes \<open>dx = out_grad @ transpose(b)\<close> and
  \<open>dy = transpose(a) @ out_grad\<close>, and where a gradient's shape differs from its
  operand's it sums away the leading axes by which the gradient's rank exceeds the
  operand's. The shape of the returned gradient is the trailing part of \<open>bo\<close> of the
  operand's batch rank, followed by the operand's matrix axes; it is the operand's shape
  exactly when the operand's batch shape is that trailing part of \<open>bo\<close>.
\<close>

lemma MatMul_gradient_shapes:
  assumes "shape a = ba @ [n, k]" and "shape b = bb @ [k, m]"
    and "broadcast_shapes ba bb = Some bo"
    and "shape out_grad = bo @ [n, m]"
    and "inputs node = [na, nb]" and "cached_data na = a" and "cached_data nb = b"
  shows "(\<exists>c. MatMul_compute a b = Inr c \<and> shape c = bo @ [n, m])
       \<and> (\<exists>tb ta dx dy da db.
             transpose_t b None = Inr tb \<and> MatMul_compute out_grad tb = Inr dx
           \<and> transpose_t a None = Inr ta \<and> MatMul_compute ta out_grad = Inr dy
           \<and> da = (if shape dx = shape a then dx
                    else reduce_axes dx [0..<length (shape dx) - length (shape a)])
           \<and> db = (if shape dy = shape b then dy
                    else reduce_axes dy [0..<length (shape dy) - length (shape b)])
           \<and> MatMul_gradient out_grad node = Inr [da, db]
           \<and> shape da = drop (length bo - length ba) bo @ [n, k]
           \<and> shape db = drop (length bo - length bb) bo @ [k, m]
           \<and> (shape da = shape a \<longleftrightarrow> drop (length bo - length ba) bo = ba)
           \<and> (shape db = shape b \<longleftrightarrow> drop (length bo - length bb) bo = bb))"
proof -
  have len: "length ba \<le> length bo" "length bb \<le> length bo"
    using broadcast_shapes_SomeD(1) [OF assms(3)] by simp_all
  from matmul_nd_shape [OF assms(1-3)]
  have fwd: "\<exists>c. MatMul_compute a b = Inr c \<and> shape c = bo @ [n, m]"
    by (auto simp: MatMul_compute_def)
  from transpose_t_None_shape [OF assms(2)] obtain tb where
    tb: "transpose_t b None = Inr tb" "shape tb = bb @ [m, k]" by blast
  from transpose_t_None_shape [OF assms(1)] obtain ta where
    ta: "transpose_t a None = Inr ta" "shape ta = ba @ [k, n]" by blast
  from matmul_nd_shape [OF assms(4) tb(2) broadcast_shapes_absorb(1) [OF assms(3)]]
  obtain dx where dx: "MatMul_compute out_grad tb = Inr dx" "shape dx = bo @ [n, k]"
    by (auto simp: MatMul_compute_def)
  from matmul_nd_shape [OF ta(2) assms(4) broadcast_shapes_absorb(2) [OF assms(3)]]
  obtain dy where dy: "MatMul_compute ta out_grad = Inr dy" "shape dy = bo @ [k, m]"
    by (auto simp: MatMul_compute_def)
  from restore_shape_shape [OF dx(2) assms(1) len(1)] obtain da where
    da: "restore_shape dx a = Inr da" "shape da = drop (length bo - length ba) bo @ [n, k]"
      "da = (if shape dx = shape a then dx
             else reduce_axes dx [0..<length (shape dx) - length (shape a)])"
    by blast
  from restore_shape_shape [OF dy(2) assms(2) len(2)] obtain db where
    db: "restore_shape dy b = Inr db" "shape db = drop (length bo - length bb) bo @ [k, m]"
      "db = (if shape dy = shape b then dy
             else reduce_axes dy [0..<length (shape dy) - length (shape b)])"
    by blast
  have g: "MatMul_gradient out_grad node = Inr [da, db]"
    using assms(5-7) tb(1) ta(1) dx(1) dy(1) da(1) db(1) by (simp add: MatMul_gradient_def)
  have ea: "shape da = shape a \<longleftrightarrow> drop (length bo - length ba) bo = ba"
    unfolding da(2) assms(1) by simp
  have eb: "shape db = shape b \<longleftrightarrow> drop (length bo - length bb) bo = bb"
    unfolding db(2) assms(2) by simp
  from tb(1) ta(1) dx(1) dy(1) da(2,3) db(2,3) g ea eb
  have "\<exists>tb ta dx dy da db.
             transpose_t b None = Inr tb \<and> MatMul_compute out_grad tb = Inr dx
           \<and> transpose_t a None = Inr ta \<and> MatMul_compute ta out_grad = Inr dy
           \<and> da = (if shape dx = shape a then dx
                    else reduce_axes dx [0..<length (shape dx) - length (shape a)])
           \<and> db = (if shape dy = shape b then dy
                    else reduce_axes dy [0..<length (shape dy) - length (shape b)])
           \<and> MatMul_gradient out_grad node = Inr [da, db]
           \<and> shape da = drop (length bo - length ba) bo @ [n, k]
           \<and> shape db = drop (length bo - length bb) bo @ [k, m]
           \<and> (shape da = shape a \<longleftrightarrow> drop (length bo - length ba) bo = ba)
           \<and> (shape db = shape b \<longleftrightarrow> drop (length bo - length bb) bo = bb)"
    by blast
  with fwd show ?thesis by blast
qed

lemma MatMul_gradient_shapes_example:
  "(\<exists>c. MatMul_compute (NDArray [2, 3] [1, 2, 3, 4, 5, 6])
           (NDArray [3, 4] [1, 0, 0, 1, 0, 1, 0, 1, 0, 0, 1, 1]) = Inr c \<and> shape c = [2, 4])
   \<and> (\<exists>da db. MatMul_gradient (NDArray [2, 4] [1, 1, 1, 1, 1, 1, 1, 1])
         (Node 2 (Some MatMul)
            [Node 0 None [] (NDArray [2, 3] [1, 2, 3, 4, 5, 6]),
             Node 1 None [] (NDArray [3, 4] [1, 0, 0, 1, 0, 1, 0, 1, 0, 0, 1, 1])]
            (NDArray [2, 4] [1, 2, 3, 6, 4, 5, 6, 15])) = Inr [da, db]
        \<and> shape da = [2, 3] \<and> shape db = [3, 4])"
proof -
  have bs: "broadcast_shapes [] [] = Some []" by (simp add: broadcast_shapes_def pad_shape_def)
  from MatMul_gradient_shapes [of "NDArray [2, 3] [1, 2, 3, 4, 5, 6]" "[]" 2 3
      "NDArray [3, 4] [1, 0, 0, 1, 0, 1, 0, 1, 0, 0, 1, 1]" "[]" 4 "[]"
      "NDArray [2, 4] [1, 1, 1, 1, 1, 1, 1, 1]"
      "Node 2 (Some MatMul)
            [Node 0 None [] (NDArray [2, 3] [1, 2, 3, 4, 5, 6]),
             Node 1 None [] (NDArray [3, 4] [1, 0, 0, 1, 0, 1, 0, 1, 0, 0, 1, 1])]
            (NDArray [2, 4] [1, 2, 3, 6, 4, 5, 6, 15])"
      "Node 0 None [] (NDArray [2, 3] [1, 2, 3, 4, 5, 6])"
      "Node 1 None [] (NDArray [3, 4] [1, 0, 0, 1, 0, 1, 0, 1, 0, 0, 1, 1])"] bs
  show ?thesis by simp blast
qed

text \<open>
  Where one operand has extra leading batch axes, the guarded reduction restores the
  other operand's shape: for \<open>a\<close> of shape \<open>(2,1,3)\<close> and \<open>b\<close> of shape \<open>(3,2)\<close> the
  gradient for \<open>b\<close> is summed over the leading axis and has shape \<open>(3,2)\<close>.
\<close>

lemma MatMul_gradient_extra_leading_axis_example:
  "MatMul_gradient (NDArray [2, 1, 2] [1, 1, 1, 1])
     (Node 2 (Some MatMul)
        [Node 0 None [] (NDArray [2, 1, 3] [1, 2, 3, 4, 5, 6]),
         Node 1 None [] (NDArray [3, 2] [1, 2, 3, 4, 5, 6])]
        (NDArray [2, 1, 2] [22, 28, 49, 64]))
   = Inr [NDArray [2, 1, 3] [3, 7, 11, 3, 7, 11], NDArray [3, 2] [5, 5, 7, 7, 9, 9]]"
  by code_simp

text \<open>
  A one-dimensional operand is accepted by the forward computation, but the gradient
  raises: \<^verbatim>\<open>transpose(x)\<close> swaps the last two entries of a one-element list.
\<close>

lemma MatMul_gradient_vector_operand_raises:
  "MatMul_compute (NDArray [3] [1, 2, 3]) (NDArray [3, 2] [1, 2, 3, 4, 5, 6]) = Inr (NDArray [2] [22, 28])
   \<and> MatMul_gradient (NDArray [2] [1, 1])
       (Node 2 (Some MatMul)
          [Node 0 None [] (NDArray [3] [1, 2, 3]), Node 1 None [] (NDArray [3, 2] [1, 2, 3, 4, 5, 6])]
          (NDArray [2] [22, 28]))
     = Inl IndexError"
  by code_simp

text \<open>
  C6. \<^verbatim>\<open>MatMul.gradient\<close> computes \<open>out_grad @ transpose(B)\<close> and
  \<open>transpose(A) @ out_grad\<close> and sums away extra leading axes, but the claim that the
  returned gradients have exactly the shapes of \<open>A\<close> and \<open>B\<close> does not hold of the
  source when a batch axis of size 1 is broadcast. For \<open>A\<close> of shape \<open>(2,1,1)\<close> and
  \<open>B\<close> of shape \<open>(1,1,1)\<close> the product has shape \<open>(2,1,1)\<close>; the gradient for \<open>B\<close> has
  shape \<open>(2,1,1)\<close>, the guard \<^verbatim>\<open>dy.shape != y.shape\<close> is entered, the rank difference
  is 0, so \<^verbatim>\<open>summation(dy, ())\<close> reduces nothing and the returned gradient keeps the
  shape \<open>(2,1,1)\<close> instead of \<open>(1,1,1)\<close>.
\<close>

theorem MatMul_gradient_size_one_batch_wrong_shape:
  "MatMul_compute (NDArray [2, 1, 1] [2, 3]) (NDArray [1, 1, 1] [5]) = Inr (NDArray [2, 1, 1] [10, 15])
   \<and> MatMul_gradient (NDArray [2, 1, 1] [1, 1])
       (Node 2 (Some MatMul)
          [Node 0 None [] (NDArray [2, 1, 1] [2, 3]), Node 1 None [] (NDArray [1, 1, 1] [5])]
          (NDArray [2, 1, 1] [10, 15]))
     = Inr [NDArray [2, 1, 1] [5, 5], NDArray [2, 1, 1] [2, 3]]
   \<and> shape (NDArray [2, 1, 1] [2, 3]) \<noteq> shape (NDArray [1, 1, 1] [5])"
  by code_simp

section \<open>Gradient accumulation in the backward engine\<close>

lemma and_then_Inr: "and_then x f = Inr y \<longleftrightarrow> (\<exists>z. x = Inr z \<and> f z = Inr y)"
  by (cases x) auto

lemma size_in_inputs: "a \<in> set ins \<Longrightarrow> size a < size (Node i opn ins c)"
  by (induction ins) auto

lemma subnodes_size: "a \<in> set (subnodes v) \<Longrightarrow> a = v \<or> size a < size v"
proof (induction v arbitrary: a)
  case (Node i opn ins c)
  show ?case
  proof (cases "a = Node i opn ins c")
    case True
    then show ?thesis by simp
  next
    case False
    with Node.prems obtain x where x: "x \<in> set ins" "a \<in> set (subnodes x)" by auto
    from Node.IH [OF x] have "size a \<le> size x" by auto
    with size_in_inputs [OF x(1), of i opn c] show ?thesis by simp
  qed
qed

lemma subnodes_self: "v \<in> set (subnodes v)"
  by (cases v) simp

lemma subnodes_trans:
  "a \<in> set (subnodes b) \<Longrightarrow> b \<in> set (subnodes c) \<Longrightarrow> a \<in> set (subnodes c)"
proof (induction c arbitrary: a b)
  case (Node i opn ins cd)
  show ?case
  proof (cases "b = Node i opn ins cd")
    case True
    with Node.prems show ?thesis by simp
  next
    case False
    with Node.prems obtain x where x: "x \<in> set ins" "b \<in> set (subnodes x)" by auto
    from Node.IH [OF x(1) Node.prems(1) x(2)] x(1) show ?thesis by auto
  qed
qed

lemma fold_dfs_subset:
  assumes "\<And>x ord. x \<in> set ins \<Longrightarrow> set (topo_sort_dfs x ord) \<subseteq> set ord \<union> set (subnodes x)"
  shows "set (fold topo_sort_dfs ins ord) \<subseteq> set ord \<union> (\<Union>x\<in>set ins. set (subnodes x))"
  using assms
proof (induction ins arbitrary: ord)
  case Nil
  then show ?case by simp
next
  case (Cons y ys)
  have 1: "set (topo_sort_dfs y ord) \<subseteq> set ord \<union> set (subnodes y)"
    using Cons.prems by simp
  have "set (fold topo_sort_dfs ys (topo_sort_dfs y ord)) \<subseteq>
        set (topo_sort_dfs y ord) \<union> (\<Union>x\<in>set ys. set (subnodes x))"
    using Cons.prems by (intro Cons.IH) simp
  with 1 show ?case by auto
qed

lemma dfs_subset: "set (topo_sort_dfs v ord) \<subseteq> set ord \<union> set (subnodes v)"
proof (induction v arbitrary: ord)
  case (Node i opn ins c)
  have "set (fold topo_sort_dfs ins ord) \<subseteq> set ord \<union> (\<Union>x\<in>set ins. set (subnodes x))"
    using Node.IH by (rule fold_dfs_subset)
  then show ?case by auto
qed

lemma backward_step_Inr:
  assumes "backward_step v (m, gr) = Inr st'"
  shows "\<exists>g. sum_node_list (m (nid v)) = Inr g \<and> snd st' = gr(nid v \<mapsto> g) \<and>
           (case op v of
              None \<Rightarrow> fst st' = m
            | Some f \<Rightarrow> \<exists>gs. gradient f g v = Inr gs \<and> fst st' = append_grads (inputs v) gs m)"
  using assms
  by (cases "op v") (auto simp: backward_step_def and_then_Inr)

lemma backward_loop_preserves:
  "backward_loop ns st = Inr st' \<Longrightarrow> x \<notin> nid ` set ns \<Longrightarrow> snd st' x = snd st x"
proof (induction ns arbitrary: st)
  case Nil
  then show ?case by simp
next
  case (Cons v vs)
  from Cons.prems(1) obtain st1 where 1: "backward_step v st = Inr st1"
    and 2: "backward_loop vs st1 = Inr st'"
    by (auto simp: and_then_Inr)
  obtain m gr where st: "st = (m, gr)" by (cases st)
  from backward_step_Inr [OF 1 [unfolded st]] obtain g where "snd st1 = gr(nid v \<mapsto> g)"
    by blast
  then have "snd st1 x = snd st x" using Cons.prems(2) st by auto
  moreover have "snd st' x = snd st1 x" using 2 Cons.prems(2) by (intro Cons.IH) auto
  ultimately show ?case by simp
qed

lemma bc_dim_commute: "bc_dim d e = bc_dim e d"
  by auto

lemma broadcast_shapes_commute: "broadcast_shapes s t = broadcast_shapes t s"
proof -
  have "map2 bc_dim xs ys = map2 bc_dim ys xs" for xs ys
  proof -
    have "map2 bc_dim xs ys = map (\<lambda>(x, y). bc_dim x y) (map (\<lambda>(x, y). (y, x)) (zip ys xs))"
      by (subst zip_commute) simp
    also have "\<dots> = map2 bc_dim ys xs"
      by (simp add: case_prod_unfold bc_dim_commute del: bc_dim.simps)
    finally show ?thesis .
  qed
  then show ?thesis
    by (simp add: broadcast_shapes_def max.commute del: bc_dim.simps)
qed

lemma np_binop_commute:
  assumes "\<And>x y. f x y = f y x"
  shows "np_binop f a b = np_binop f b a"
proof -
  have h: "(\<lambda>u. f (item a (src_index (shape a) u)) (item b (src_index (shape b) u))) =
        (\<lambda>u. f (item b (src_index (shape b) u)) (item a (src_index (shape a) u)))"
    by (rule ext) (rule assms)
  show ?thesis
    unfolding np_binop_def h broadcast_shapes_commute [of "shape a" "shape b"] by (rule refl)
qed

lemma EWiseAdd_compute_commute: "EWiseAdd_compute a b = EWiseAdd_compute b a"
  unfolding EWiseAdd_compute_def by (rule np_binop_commute) simp

lemma consistent_idsD:
  "consistent_ids r \<Longrightarrow> a \<in> set (subnodes r) \<Longrightarrow> b \<in> set (subnodes r) \<Longrightarrow>
   nid a = nid b \<Longrightarrow> a = b"
  by (auto simp: consistent_ids_def list_all_iff)

subsection \<open>The broadcast example through the engine\<close>

text \<open>
  A tensor of shape \<open>(3,1)\<close> is broadcast to \<open>(3,4)\<close> and all elements are summed. The
  backward pass from the sum records, for the leaf, a gradient of shape \<open>(3,1)\<close> with
  every entry equal to 4, whatever the values of the leaf.
\<close>

lemma Summation_gradient_seed_3_4:
  "Summation_gradient None (np_ones []) (Node k opn [Node j opn' ins (NDArray [3, 4] b)] c)
   = Inr [np_ones [3, 4]]"
  by code_simp

lemma BroadcastTo_gradient_ones_3_4:
  "BroadcastTo_gradient shp (np_ones [3, 4]) (Node j opn [Node i opn' ins (NDArray [3, 1] xs)] c)
   = Inr [NDArray [3, 1] [4, 4, 4]]"
proof -
  have bx: "broadcastable (shape (NDArray [3, 1] xs)) [3, 4]" by (simp add: broadcastable_def)
  have sh: "shape (np_ones [3, 4]) = [3, 4]" by (simp add: np_ones_def)
  have "BroadcastTo_gradient shp (np_ones [3, 4])
               (Node j opn [Node i opn' ins (NDArray [3, 1] xs)] c) =
          Inr [NDArray (shape (NDArray [3, 1] xs))
                 (data (reduce_axes (np_ones [3, 4])
                    (BroadcastTo_reduce_dim [3, 4] (shape (NDArray [3, 1] xs)))))]"
  proof (rule BroadcastTo_gradient_general [OF bx sh])
    show "inputs (Node j opn [Node i opn' ins (NDArray [3, 1] xs)] c)
          = [Node i opn' ins (NDArray [3, 1] xs)]"
      by simp
    show "cached_data (Node i opn' ins (NDArray [3, 1] xs)) = NDArray [3, 1] xs"
      by simp
  qed
  then show ?thesis
    by (simp only: ndarray.sel sum_ones_3_4_over_broadcast_axis)
qed

lemma backward_broadcast_sum_example:
  "\<exists>G. backward
          (Node 2 (Some (Summation None))
             [Node 1 (Some (BroadcastTo [3, 4])) [Node 0 None [] (NDArray [3, 1] xs)]
                (NDArray [3, 4] b)]
             (NDArray [] s)) = Inr G
       \<and> G 0 = Some (NDArray [3, 1] [4, 4, 4])"
proof -
  have seed: "np_ones (shape (NDArray [] s)) = np_ones []" by simp
  have one: "sum_node_list [g] = Inr g" for g by simp
  show ?thesis
    unfolding backward_def seed
    by (simp add: backward_from_def find_topo_sort_def backward_step_def
        Summation_gradient_seed_3_4 BroadcastTo_gradient_ones_3_4 [unfolded One_nat_def]
        del: sum_node_list.simps add: one)
qed

subsection \<open>Topological order and the number of contributions\<close>

lemma gradient_length: "gradient f g u = Inr gs \<Longrightarrow> length (inputs u) = arity f \<Longrightarrow> length gs = arity f"
  by (cases f)
     (auto simp: EWiseAdd_gradient_def AddScalar_gradient_def EWiseMul_gradient_def
        MulScalar_gradient_def PowerScalar_gradient_def EWiseDiv_gradient_def
        DivScalar_gradient_def Transpose_gradient_def Reshape_gradient_def
        BroadcastTo_gradient_def Summation_gradient_def MatMul_gradient_def
        Negate_gradient_def Log_gradient_def Exp_gradient_def ReLU_gradient_def
        and_then_Inr Let_def split: list.splits)

lemma fold_dfs_invariant:
  assumes step: "\<And>x ord. x \<in> set ins \<Longrightarrow> P ord \<Longrightarrow>
            P (topo_sort_dfs x ord) \<and> set ord \<subseteq> set (topo_sort_dfs x ord) \<and>
            nid x \<in> nid ` set (topo_sort_dfs x ord)"
    and "P ord"
  shows "P (fold topo_sort_dfs ins ord) \<and> set ord \<subseteq> set (fold topo_sort_dfs ins ord) \<and>
         nid ` set ins \<subseteq> nid ` set (fold topo_sort_dfs ins ord)"
  using assms
proof (induction ins arbitrary: ord)
  case Nil
  then show ?case by simp
next
  case (Cons y ys)
  let ?o1 = "topo_sort_dfs y ord"
  have 1: "P ?o1" "set ord \<subseteq> set ?o1" "nid y \<in> nid ` set ?o1"
    using Cons.prems(1) [of y ord] Cons.prems(2) by simp_all
  have 2: "P (fold topo_sort_dfs ys ?o1) \<and> set ?o1 \<subseteq> set (fold topo_sort_dfs ys ?o1) \<and>
         nid ` set ys \<subseteq> nid ` set (fold topo_sort_dfs ys ?o1)"
    using Cons.prems(1) 1(1) by (intro Cons.IH) simp_all
  with 1 show ?case by auto
qed

lemma dfs_invariant:
  assumes cons: "consistent_ids r"
  shows "v \<in> set (subnodes r) \<Longrightarrow> set ord \<subseteq> set (subnodes r) \<Longrightarrow> topo_ok (rev ord) \<Longrightarrow>
         (topo_ok (rev (topo_sort_dfs v ord)) \<and> set (topo_sort_dfs v ord) \<subseteq> set (subnodes r)) \<and>
         set ord \<subseteq> set (topo_sort_dfs v ord) \<and> nid v \<in> nid ` set (topo_sort_dfs v ord)"
proof (induction v arbitrary: ord)
  case (Node i opn ins c)
  let ?v = "Node i opn ins c"
  show ?case
  proof (cases "i \<in> nid ` set ord")
    case True
    then show ?thesis using Node.prems by simp
  next
    case False
    let ?P = "\<lambda>ord. topo_ok (rev ord) \<and> set ord \<subseteq> set (subnodes r)"
    let ?o = "fold topo_sort_dfs ins ord"
    have ins_r: "x \<in> set (subnodes r)" if "x \<in> set ins" for x
      using subnodes_trans [OF _ Node.prems(1), of x] that subnodes_self [of x] by auto
    have fold: "?P ?o \<and> set ord \<subseteq> set ?o \<and> nid ` set ins \<subseteq> nid ` set ?o"
    proof (rule fold_dfs_invariant [where P = ?P])
      fix x ord' assume x: "x \<in> set ins" and P: "?P ord'"
      from Node.IH [OF x ins_r [OF x], of ord'] P
      show "?P (topo_sort_dfs x ord') \<and> set ord' \<subseteq> set (topo_sort_dfs x ord') \<and>
            nid x \<in> nid ` set (topo_sort_dfs x ord')"
        by blast
    next
      show "?P ord" using Node.prems by simp
    qed
    have sub: "set ?o \<subseteq> set ord \<union> (\<Union>x\<in>set ins. set (subnodes x))"
      by (rule fold_dfs_subset) (rule dfs_subset)
    have fresh: "i \<notin> nid ` set ?o"
    proof
      assume "i \<in> nid ` set ?o"
      then obtain a where a: "a \<in> set ?o" "nid a = i" by auto
      with False sub obtain x where x: "x \<in> set ins" "a \<in> set (subnodes x)" by auto
      from subnodes_size [OF x(2)] size_in_inputs [OF x(1), of i opn c]
      have ne: "a \<noteq> ?v" by auto
      have "a \<in> set (subnodes r)" using fold a(1) by auto
      from consistent_idsD [OF cons this Node.prems(1)] a(2) ne show False by simp
    qed
    have "topo_sort_dfs ?v ord = ?o @ [?v]" using False by simp
    then show ?thesis using fold fresh Node.prems(1) by auto
  qed
qed

lemma find_topo_sort_ok:
  assumes "consistent_ids r"
  shows "topo_ok (find_topo_sort r)" and "set (find_topo_sort r) \<subseteq> set (subnodes r)"
    and "r \<in> set (find_topo_sort r)"
proof -
  from dfs_invariant [OF assms subnodes_self, of "[]"]
  have 1: "topo_ok (rev (topo_sort_dfs r []))" "set (topo_sort_dfs r []) \<subseteq> set (subnodes r)"
    "nid r \<in> nid ` set (topo_sort_dfs r [])"
    by simp_all
  show "topo_ok (find_topo_sort r)" "set (find_topo_sort r) \<subseteq> set (subnodes r)"
    using 1 by (simp_all add: find_topo_sort_def)
  from 1(3) obtain a where a: "a \<in> set (topo_sort_dfs r [])" "nid a = nid r" by auto
  with 1(2) consistent_idsD [OF assms _ subnodes_self, of a] have "a = r" by auto
  with a show "r \<in> set (find_topo_sort r)" by (simp add: find_topo_sort_def)
qed


lemma topo_ok_inputs:
  "topo_ok ns \<Longrightarrow> u \<in> set ns \<Longrightarrow> nid ` set (inputs u) \<subseteq> nid ` set ns"
  by (induction ns) auto

lemma topo_ok_closed:
  assumes cons: "consistent_ids r" and ok: "topo_ok ns" and sub: "set ns \<subseteq> set (subnodes r)"
  shows "u \<in> set ns \<Longrightarrow> a \<in> set (subnodes u) \<Longrightarrow> a \<in> set ns"
proof (induction u arbitrary: a)
  case (Node i opn ins c)
  let ?u = "Node i opn ins c"
  show ?case
  proof (cases "a = ?u")
    case True
    then show ?thesis using Node.prems by simp
  next
    case False
    with Node.prems(2) obtain x where x: "x \<in> set ins" "a \<in> set (subnodes x)" by auto
    have ur: "?u \<in> set (subnodes r)" using sub Node.prems(1) by auto
    have xr: "x \<in> set (subnodes r)"
      using subnodes_trans [OF _ ur, of x] x(1) subnodes_self [of x] by auto
    from topo_ok_inputs [OF ok Node.prems(1)] x(1)
    obtain x' where x': "x' \<in> set ns" "nid x' = nid x" by force
    with sub consistent_idsD [OF cons _ xr, of x'] have "x' = x" by auto
    with x' have "x \<in> set ns" by simp
    from Node.IH [OF x(1) this x(2)] show ?thesis .
  qed
qed

lemma find_topo_sort_set:
  assumes "consistent_ids r"
  shows "set (find_topo_sort r) = set (subnodes r)"
proof
  show "set (find_topo_sort r) \<subseteq> set (subnodes r)" by (rule find_topo_sort_ok(2) [OF assms])
  show "set (subnodes r) \<subseteq> set (find_topo_sort r)"
    using topo_ok_closed [OF assms find_topo_sort_ok(1) [OF assms] find_topo_sort_ok(2) [OF assms]
        find_topo_sort_ok(3) [OF assms]]
    by auto
qed

lemma append_grads_other:
  "x \<notin> nid ` set ins \<Longrightarrow> append_grads ins gs m x = m x"
  by (induction ins gs m rule: append_grads.induct) auto

lemma append_grads_length:
  "length gs = length ins \<Longrightarrow>
   length (append_grads ins gs m x) = length (m x) + length (filter (\<lambda>w. nid w = x) ins)"
  by (induction ins gs m rule: append_grads.induct) auto

lemma backward_loop_map_preserves:
  "backward_loop ns (m0, G0) = Inr (m, G) \<Longrightarrow> x \<notin> (\<Union>u\<in>set ns. nid ` set (inputs u)) \<Longrightarrow>
   m x = m0 x"
proof (induction ns arbitrary: m0 G0)
  case Nil
  then show ?case by simp
next
  case (Cons w rest)
  from Cons.prems(1) obtain m1 G1 where 1: "backward_step w (m0, G0) = Inr (m1, G1)"
    and 2: "backward_loop rest (m1, G1) = Inr (m, G)"
    by (auto simp: and_then_Inr)
  have "m1 x = m0 x"
    using backward_step_Inr [OF 1] Cons.prems(2)
    by (cases "op w") (auto simp: append_grads_other)
  moreover have "m x = m1 x" using 2 Cons.prems(2) by (intro Cons.IH [of m1 G1]) auto
  ultimately show ?case by simp
qed

lemma topo_ok_inputs_ids:
  "topo_ok ns \<Longrightarrow> (\<Union>u\<in>set ns. nid ` set (inputs u)) \<subseteq> nid ` set ns"
  by (induction ns) auto

lemma backward_loop_finalized:
  "topo_ok ns \<Longrightarrow> backward_loop ns (m0, G0) = Inr (m, G) \<Longrightarrow> u \<in> set ns \<Longrightarrow>
   \<exists>g. sum_node_list (m (nid u)) = Inr g \<and> G (nid u) = Some g"
proof (induction ns arbitrary: m0 G0)
  case Nil
  then show ?case by simp
next
  case (Cons w rest)
  from Cons.prems(2) obtain m1 G1 where 1: "backward_step w (m0, G0) = Inr (m1, G1)"
    and 2: "backward_loop rest (m1, G1) = Inr (m, G)"
    by (auto simp: and_then_Inr)
  have ok: "nid w \<notin> nid ` set rest" "nid ` set (inputs w) \<subseteq> nid ` set rest" "topo_ok rest"
    using Cons.prems(1) by simp_all
  show ?case
  proof (cases "u = w")
    case True
    from backward_step_Inr [OF 1] obtain g where g: "sum_node_list (m0 (nid w)) = Inr g"
      "G1 = G0(nid w \<mapsto> g)"
      by auto
    have w_in: "nid w \<notin> nid ` set (inputs w)" using ok(1,2) by auto
    have "m1 (nid w) = m0 (nid w)"
      using backward_step_Inr [OF 1] w_in by (cases "op w") (auto simp: append_grads_other)
    moreover have "m (nid w) = m1 (nid w)"
      using topo_ok_inputs_ids [OF ok(3)] ok(1)
      by (intro backward_loop_map_preserves [OF 2]) auto
    moreover have "G (nid w) = G1 (nid w)"
      using backward_loop_preserves [OF 2, of "nid w"] ok(1) by simp
    ultimately show ?thesis using g True by simp
  next
    case False
    with Cons.prems(3) have "u \<in> set rest" by simp
    from Cons.IH [OF ok(3) 2 this] show ?thesis .
  qed
qed

lemma backward_loop_count:
  assumes "\<forall>u\<in>set ns. case op u of None \<Rightarrow> inputs u = [] | Some f \<Rightarrow> length (inputs u) = arity f"
    and "backward_loop ns (m0, G0) = Inr (m, G)"
  shows "length (m x) =
         length (m0 x) + (\<Sum>u\<leftarrow>ns. length (filter (\<lambda>w. nid w = x) (inputs u)))"
  using assms
proof (induction ns arbitrary: m0 G0)
  case Nil
  then show ?case by simp
next
  case (Cons w rest)
  from Cons.prems(2) obtain m1 G1 where 1: "backward_step w (m0, G0) = Inr (m1, G1)"
    and 2: "backward_loop rest (m1, G1) = Inr (m, G)"
    by (auto simp: and_then_Inr)
  have "length (m1 x) = length (m0 x) + length (filter (\<lambda>a. nid a = x) (inputs w))"
  proof (cases "op w")
    case None
    then show ?thesis using backward_step_Inr [OF 1] Cons.prems(1) by auto
  next
    case (Some f)
    with backward_step_Inr [OF 1] obtain g gs where gs: "gradient f g w = Inr gs"
      "m1 = append_grads (inputs w) gs m0"
      by auto
    have ar: "length (inputs w) = arity f" using Cons.prems(1) Some by simp
    from gradient_length [OF gs(1) ar] ar have "length gs = length (inputs w)" by simp
    then show ?thesis unfolding gs(2) by (rule append_grads_length)
  qed
  moreover have "length (m x) =
      length (m1 x) + (\<Sum>u\<leftarrow>rest. length (filter (\<lambda>w. nid w = x) (inputs u)))"
    using Cons.prems(1) 2 by (intro Cons.IH [of m1 G1]) auto
  ultimately show ?case by simp
qed


lemma topo_ok_distinct: "topo_ok ns \<Longrightarrow> distinct (map nid ns)"
  by (induction ns) auto

text \<open>
  In a graph with consistent identities whose nodes have the operand counts of their
  operators, a successful backward pass processes every reachable node once, and the
  gradient recorded for a node is the sum of all contributions the node ever receives:
  none arrives after the node has been processed. Their number is the number of times the
  node occurs as an input of a reachable node, plus one seed for the output node.
\<close>

lemma backward_finalizes_after_all_contributions:
  assumes cons: "consistent_ids r" and ar: "arity_ok r"
    and run: "backward_loop (find_topo_sort r) ((\<lambda>_. [])(nid r := [seed]), Map.empty) = Inr (m, G)"
    and v: "v \<in> set (subnodes r)"
  shows "distinct (map nid (find_topo_sort r)) \<and> set (find_topo_sort r) = set (subnodes r) \<and>
         backward_from r seed = Inr G \<and>
         (\<exists>g. sum_node_list (m (nid v)) = Inr g \<and> G (nid v) = Some g) \<and>
         length (m (nid v)) =
           (if v = r then 1 else 0) +
           (\<Sum>u\<leftarrow>find_topo_sort r. length (filter (\<lambda>w. w = v) (inputs u)))"
proof -
  note ok = find_topo_sort_ok [OF cons]
  note all = find_topo_sort_set [OF cons]
  have d: "distinct (map nid (find_topo_sort r))" using ok(1) by (rule topo_ok_distinct)
  have bf: "backward_from r seed = Inr G" using run by (simp add: backward_from_def)
  have fin: "\<exists>g. sum_node_list (m (nid v)) = Inr g \<and> G (nid v) = Some g"
    using ok(1) run by (rule backward_loop_finalized) (simp add: all v)
  have arity: "\<forall>u\<in>set (find_topo_sort r).
      case op u of None \<Rightarrow> inputs u = [] | Some f \<Rightarrow> length (inputs u) = arity f"
    using ar all by (simp add: arity_ok_def list_all_iff)
  have same: "(nid w = nid v) = (w = v)" if "u \<in> set (find_topo_sort r)" "w \<in> set (inputs u)" for u w
  proof -
    have "u \<in> set (subnodes r)" using that(1) all by simp
    moreover have "w \<in> set (subnodes u)"
      using that(2) subnodes_self [of w] by (cases u) auto
    ultimately have "w \<in> set (subnodes r)" by (rule subnodes_trans [rotated])
    from consistent_idsD [OF cons this v] show ?thesis by auto
  qed
  have e1: "map (\<lambda>u. length (filter (\<lambda>w. nid w = nid v) (inputs u))) (find_topo_sort r) =
        map (\<lambda>u. length (filter (\<lambda>w. w = v) (inputs u))) (find_topo_sort r)"
    by (rule map_cong [OF refl]) (simp cong: filter_cong add: same)
  have e2: "length (((\<lambda>_. [])(nid r := [seed])) (nid v)) = (if v = r then 1 else 0)"
    using consistent_idsD [OF cons v subnodes_self] by auto
  have "length (m (nid v)) =
           length (((\<lambda>_. [])(nid r := [seed])) (nid v)) +
           (\<Sum>u\<leftarrow>find_topo_sort r. length (filter (\<lambda>w. nid w = nid v) (inputs u)))"
    using arity run by (rule backward_loop_count)
  then have "length (m (nid v)) =
           (if v = r then 1 else 0) +
           (\<Sum>u\<leftarrow>find_topo_sort r. length (filter (\<lambda>w. w = v) (inputs u)))"
    unfolding e1 e2 .
  with d all bf fin show ?thesis by simp
qed

subsection \<open>The contributions a node receives\<close>

lemma append_grads_content:
  "append_grads ins gs m x = m x @ map snd (filter (\<lambda>(w, g). nid w = x) (zip ins gs))"
proof (induction ins gs m rule: append_grads.induct)
  case (1 v vs g gs m)
  let ?m' = "m(nid v := m (nid v) @ [g])"
  have "append_grads (v # vs) (g # gs) m x = append_grads vs gs ?m' x" by simp
  also have "\<dots> = ?m' x @ map snd (filter (\<lambda>(w, g). nid w = x) (zip vs gs))" by (rule 1)
  also have "\<dots> = m x @ map snd (filter (\<lambda>(w, g). nid w = x) (zip (v # vs) (g # gs)))"
    by simp
  finally show ?case .
qed simp_all

lemma backward_loop_content:
  "topo_ok ns \<Longrightarrow> backward_loop ns (m0, G0) = Inr (m, G) \<Longrightarrow>
   m x = m0 x @ concat (map (\<lambda>u. contributions G u x) ns)"
proof (induction ns arbitrary: m0 G0)
  case Nil
  then show ?case by simp
next
  case (Cons u rest)
  from Cons.prems(2) obtain m1 G1 where 1: "backward_step u (m0, G0) = Inr (m1, G1)"
    and 2: "backward_loop rest (m1, G1) = Inr (m, G)"
    by (auto simp: and_then_Inr)
  have ok: "nid u \<notin> nid ` set rest" "topo_ok rest" using Cons.prems(1) by simp_all
  from backward_step_Inr [OF 1] obtain g where g': "snd (m1, G1) = G0(nid u \<mapsto> g)"
    and c': "case op u of None \<Rightarrow> fst (m1, G1) = m0
            | Some f \<Rightarrow> \<exists>gs. gradient f g u = Inr gs \<and>
                 fst (m1, G1) = append_grads (inputs u) gs m0"
    by blast
  have g: "G1 = G0(nid u \<mapsto> g)" using g' by simp
  have c: "case op u of None \<Rightarrow> m1 = m0
            | Some f \<Rightarrow> \<exists>gs. gradient f g u = Inr gs \<and> m1 = append_grads (inputs u) gs m0"
    using c' by (cases "op u") simp_all
  have "G (nid u) = G1 (nid u)"
    using backward_loop_preserves [OF 2, of "nid u"] ok(1) by simp
  then have Gu: "G (nid u) = Some g" using g by simp
  have "m1 x = m0 x @ contributions G u x"
    using c Gu by (cases "op u") (auto simp: contributions_def append_grads_content)
  moreover have "m x = m1 x @ concat (map (\<lambda>u. contributions G u x) rest)"
    using ok(2) 2 by (rule Cons.IH)
  ultimately show ?case by simp
qed

lemma backward_loop_gradient_succeeds:
  "topo_ok ns \<Longrightarrow> backward_loop ns (m0, G0) = Inr (m, G) \<Longrightarrow> u \<in> set ns \<Longrightarrow>
   op u = Some f \<Longrightarrow> \<exists>g gs. G (nid u) = Some g \<and> gradient f g u = Inr gs"
proof (induction ns arbitrary: m0 G0)
  case Nil
  then show ?case by simp
next
  case (Cons w rest)
  from Cons.prems(2) obtain m1 G1 where 1: "backward_step w (m0, G0) = Inr (m1, G1)"
    and 2: "backward_loop rest (m1, G1) = Inr (m, G)"
    by (auto simp: and_then_Inr)
  have ok: "nid w \<notin> nid ` set rest" "topo_ok rest" using Cons.prems(1) by simp_all
  show ?case
  proof (cases "u = w")
    case True
    from backward_step_Inr [OF 1] Cons.prems(4) True obtain g gs where
      g: "G1 = G0(nid w \<mapsto> g)" "gradient f g w = Inr gs"
      by auto
    have "G (nid w) = G1 (nid w)"
      using backward_loop_preserves [OF 2, of "nid w"] ok(1) by simp
    then show ?thesis using g True by auto
  next
    case False
    with Cons.prems(3) have "u \<in> set rest" by simp
    from Cons.IH [OF ok(2) 2 this Cons.prems(4)] show ?thesis .
  qed
qed

lemma concat_no_contributor:
  "(\<forall>u\<in>set ns. F u = []) \<Longrightarrow> concat (map F ns) = []"
  by (induction ns) auto

lemma concat_one_contributor:
  "distinct ns \<Longrightarrow> a \<in> set ns \<Longrightarrow> (\<forall>u\<in>set ns. u \<noteq> a \<longrightarrow> F u = []) \<Longrightarrow>
   concat (map F ns) = F a"
proof (induction ns)
  case Nil
  then show ?case by simp
next
  case (Cons x xs)
  show ?case
  proof (cases "x = a")
    case True
    then have "\<forall>u\<in>set xs. F u = []" using Cons.prems by auto
    then show ?thesis using True by (simp add: concat_no_contributor)
  next
    case False
    then show ?thesis using Cons by auto
  qed
qed

lemma concat_two_contributors:
  assumes "distinct ns" "a \<in> set ns" "b \<in> set ns" "a \<noteq> b"
    and "\<forall>u\<in>set ns. u \<noteq> a \<longrightarrow> u \<noteq> b \<longrightarrow> F u = []"
  shows "concat (map F ns) = F a @ F b \<or> concat (map F ns) = F b @ F a"
  using assms
proof (induction ns)
  case Nil
  then show ?case by simp
next
  case (Cons x xs)
  show ?case
  proof (cases "x = a")
    case True
    then have "concat (map F xs) = F b"
      using Cons.prems by (intro concat_one_contributor) auto
    then show ?thesis using True by simp
  next
    case False
    note xa = False
    show ?thesis
    proof (cases "x = b")
      case True
      then have "concat (map F xs) = F a"
        using Cons.prems by (intro concat_one_contributor) auto
      then show ?thesis using True by simp
    next
      case False
      then have "F x = []" using xa Cons.prems by simp
      moreover have "concat (map F xs) = F a @ F b \<or> concat (map F xs) = F b @ F a"
        using Cons.prems xa False by (intro Cons.IH) auto
      ultimately show ?thesis by simp
    qed
  qed
qed

lemma contributions_none:
  "\<forall>w\<in>set (inputs u). nid w \<noteq> x \<Longrightarrow> contributions G u x = []"
proof -
  assume a: "\<forall>w\<in>set (inputs u). nid w \<noteq> x"
  have e: "filter (\<lambda>(w, g). nid w = x) (zip (inputs u) gs) = []" for gs
    using a by (auto simp: filter_empty_conv dest: set_zip_leftD)
  show ?thesis by (simp add: contributions_def e split: option.splits sum.splits)
qed


lemma inputs_subnodes: "w \<in> set (inputs u) \<Longrightarrow> w \<in> set (subnodes u)"
  using subnodes_self [of w] by (cases u) auto

lemma inputs_size: "w \<in> set (inputs u) \<Longrightarrow> size w < size u"
proof (cases u)
  case (Node i opn ins c)
  assume "w \<in> set (inputs u)"
  then have "w \<in> set ins" using Node by simp
  from size_in_inputs [OF this, of i opn c] show ?thesis using Node by simp
qed

lemma consistent_ids_subnode:
  "consistent_ids r \<Longrightarrow> a \<in> set (subnodes r) \<Longrightarrow> consistent_ids a"
  unfolding consistent_ids_def list_all_iff using subnodes_trans by blast

lemma proper_subnode_is_input:
  "a \<in> set (subnodes r) \<Longrightarrow> a \<noteq> r \<Longrightarrow> \<exists>u\<in>set (subnodes r). a \<in> set (inputs u)"
proof (induction r)
  case (Node i opn ins c)
  let ?r = "Node i opn ins c"
  from Node.prems obtain x where x: "x \<in> set ins" "a \<in> set (subnodes x)" by auto
  show ?case
  proof (cases "a = x")
    case True
    then have "a \<in> set (inputs ?r)" using x(1) by simp
    then show ?thesis using subnodes_self [of ?r] by blast
  next
    case False
    from Node.IH [OF x False] obtain u where u: "u \<in> set (subnodes x)" "a \<in> set (inputs u)"
      by blast
    have "u \<in> set (subnodes ?r)" using u(1) x(1) by auto
    with u(2) show ?thesis by blast
  qed
qed

lemma no_contribution_from_others:
  assumes cons: "consistent_ids r" and x: "x \<in> set (subnodes r)"
    and oc: "only_consumers r x us" and u: "u \<in> set (subnodes r)" "u \<notin> set us"
  shows "contributions G u (nid x) = []"
proof (rule contributions_none, rule ballI, rule notI)
  fix w assume w: "w \<in> set (inputs u)" "nid w = nid x"
  have "w \<in> set (subnodes r)" using inputs_subnodes [OF w(1)] u(1) by (rule subnodes_trans)
  from consistent_idsD [OF cons this x w(2)] w(1) have "x \<in> set (inputs u)" by simp
  with oc u show False by (auto simp: only_consumers_def list_all_iff)
qed

lemma run_root:
  assumes cons: "consistent_ids r"
    and run: "backward_loop (find_topo_sort r) ((\<lambda>_. [])(nid r := [seed]), Map.empty) = Inr (m, G)"
  shows "G (nid r) = Some seed"
proof -
  note ok = find_topo_sort_ok [OF cons]
  have none: "\<forall>u\<in>set (find_topo_sort r). contributions G u (nid r) = []"
  proof
    fix u assume "u \<in> set (find_topo_sort r)"
    then have ur: "u \<in> set (subnodes r)" using ok(2) by auto
    have oc: "only_consumers r r []"
    proof -
      have "r \<notin> set (inputs a)" if "a \<in> set (subnodes r)" for a
        using subnodes_size [OF that] inputs_size [of r a] by auto
      then show ?thesis by (auto simp: only_consumers_def list_all_iff)
    qed
    show "contributions G u (nid r) = []"
      using cons subnodes_self oc ur by (rule no_contribution_from_others) simp
  qed
  have "m (nid r) = ((\<lambda>_. [])(nid r := [seed])) (nid r) @
      concat (map (\<lambda>u. contributions G u (nid r)) (find_topo_sort r))"
    using ok(1) run by (rule backward_loop_content)
  then have "m (nid r) = [seed]" using concat_no_contributor [OF none] by simp
  moreover from backward_loop_finalized [OF ok(1) run ok(3)]
  obtain g where "sum_node_list (m (nid r)) = Inr g" "G (nid r) = Some g" by blast
  ultimately show ?thesis by simp
qed

lemma run_one_consumer:
  assumes cons: "consistent_ids r"
    and run: "backward_loop (find_topo_sort r) ((\<lambda>_. [])(nid r := [seed]), Map.empty) = Inr (m, G)"
    and x: "x \<in> set (subnodes r)" "x \<noteq> r"
    and c: "c \<in> set (subnodes r)" and oc: "only_consumers r x [c]"
  shows "m (nid x) = contributions G c (nid x)"
proof -
  note ok = find_topo_sort_ok [OF cons]
  note all = find_topo_sort_set [OF cons]
  have d: "distinct (find_topo_sort r)"
    using topo_ok_distinct [OF ok(1)] by (simp add: distinct_map)
  have others: "\<forall>u\<in>set (find_topo_sort r). u \<noteq> c \<longrightarrow> contributions G u (nid x) = []"
    using no_contribution_from_others [OF cons x(1) oc] all by auto
  have "nid x \<noteq> nid r" using consistent_idsD [OF cons x(1) subnodes_self] x(2) by auto
  then have "((\<lambda>_. [])(nid r := [seed])) (nid x) = []" by simp
  moreover have "m (nid x) = ((\<lambda>_. [])(nid r := [seed])) (nid x) @
      concat (map (\<lambda>u. contributions G u (nid x)) (find_topo_sort r))"
    using ok(1) run by (rule backward_loop_content)
  moreover have "concat (map (\<lambda>u. contributions G u (nid x)) (find_topo_sort r)) =
      contributions G c (nid x)"
    using d _ others by (rule concat_one_contributor) (simp add: all c)
  ultimately show ?thesis by simp
qed

lemma run_two_consumers:
  assumes cons: "consistent_ids r"
    and run: "backward_loop (find_topo_sort r) ((\<lambda>_. [])(nid r := [seed]), Map.empty) = Inr (m, G)"
    and x: "x \<in> set (subnodes r)" "x \<noteq> r"
    and ab: "a \<in> set (subnodes r)" "b \<in> set (subnodes r)" "a \<noteq> b"
    and oc: "only_consumers r x [a, b]"
  shows "m (nid x) = contributions G a (nid x) @ contributions G b (nid x) \<or>
         m (nid x) = contributions G b (nid x) @ contributions G a (nid x)"
proof -
  note ok = find_topo_sort_ok [OF cons]
  note all = find_topo_sort_set [OF cons]
  have d: "distinct (find_topo_sort r)"
    using topo_ok_distinct [OF ok(1)] by (simp add: distinct_map)
  have others: "\<forall>u\<in>set (find_topo_sort r). u \<noteq> a \<longrightarrow> u \<noteq> b \<longrightarrow>
      contributions G u (nid x) = []"
    using no_contribution_from_others [OF cons x(1) oc] all by auto
  have "nid x \<noteq> nid r" using consistent_idsD [OF cons x(1) subnodes_self] x(2) by auto
  then have "((\<lambda>_. [])(nid r := [seed])) (nid x) = []" by simp
  moreover have "m (nid x) = ((\<lambda>_. [])(nid r := [seed])) (nid x) @
      concat (map (\<lambda>u. contributions G u (nid x)) (find_topo_sort r))"
    using ok(1) run by (rule backward_loop_content)
  moreover have "concat (map (\<lambda>u. contributions G u (nid x)) (find_topo_sort r)) =
        contributions G a (nid x) @ contributions G b (nid x) \<or>
      concat (map (\<lambda>u. contributions G u (nid x)) (find_topo_sort r)) =
        contributions G b (nid x) @ contributions G a (nid x)"
    using d _ _ ab(3) others by (rule concat_two_contributors) (simp_all add: all ab)
  ultimately show ?thesis by auto
qed

lemma filter_zip_length:
  "length (filter (\<lambda>(w, g). P w) (zip xs ys)) \<le> length (filter P xs)"
proof (induction xs arbitrary: ys)
  case Nil
  then show ?case by simp
next
  case (Cons x xs)
  show ?case
  proof (cases ys)
    case Nil
    then show ?thesis by simp
  next
    case (Cons y ys')
    with Cons.IH [of ys'] show ?thesis by auto
  qed
qed


lemma backward_loop_of_backward:
  assumes "backward r = Inr G"
  shows "\<exists>m. backward_loop (find_topo_sort r)
       ((\<lambda>_. [])(nid r := [np_ones (shape (cached_data r))]), Map.empty) = Inr (m, G)"
proof -
  from assms obtain st where
    "backward_loop (find_topo_sort r)
       ((\<lambda>_. [])(nid r := [np_ones (shape (cached_data r))]), Map.empty) = Inr st"
    "snd st = G"
    by (auto simp: backward_def backward_from_def and_then_Inr)
  then show ?thesis by (cases st) auto
qed

lemma single_contribution:
  assumes cons: "consistent_ids r" and u: "u \<in> set (subnodes r)" and v: "v \<in> set (subnodes r)"
    and once: "count_list (inputs u) v = 1"
    and sum: "sum_node_list (map snd (filter (\<lambda>(w, g). nid w = nid v) (zip (inputs u) gs))) = Inr a"
  shows "map snd (filter (\<lambda>(w, g). nid w = nid v) (zip (inputs u) gs)) = [a]"
proof -
  let ?L = "map snd (filter (\<lambda>(w, g). nid w = nid v) (zip (inputs u) gs))"
  have same: "(nid w = nid v) = (v = w)" if "w \<in> set (inputs u)" for w
  proof -
    have "w \<in> set (subnodes r)" using inputs_subnodes [OF that] u by (rule subnodes_trans)
    from consistent_idsD [OF cons this v] show ?thesis by auto
  qed
  have "length (filter (\<lambda>w. nid w = nid v) (inputs u)) = length (filter ((=) v) (inputs u))"
    by (rule arg_cong [where f = length]) (simp cong: filter_cong add: same)
  also have "\<dots> = 1" using once by (simp add: count_list_eq_length_filter)
  finally have "length ?L \<le> 1"
    using filter_zip_length [of "\<lambda>w. nid w = nid v" "inputs u" gs] by simp
  moreover have "?L \<noteq> []" using sum by auto
  ultimately obtain a' where L: "?L = [a']" by (cases ?L) auto
  with sum show ?thesis by simp
qed

lemma count_list_filter: "length (filter (\<lambda>x. x = w) xs) = count_list xs w"
  by (induction xs) auto

lemma count_list_mem: "count_list xs x = 1 \<Longrightarrow> x \<in> set xs"
  using count_list_0_iff [of xs x] by auto

lemma contributions_Some:
  "op u = Some f \<Longrightarrow> G (nid u) = Some g \<Longrightarrow> gradient f g u = Inr gs \<Longrightarrow>
   contributions G u x = map snd (filter (\<lambda>(w, g). nid w = x) (zip (inputs u) gs))"
  by (simp add: contributions_def)

lemma only_consumers_below:
  assumes cons: "consistent_ids h" and c: "c \<in> set (subnodes h)" "size c < size h"
    and d: "d \<in> set (subnodes h)" "d \<noteq> c" and od: "only_consumers h d [h]"
  shows "d \<notin> set (subnodes c)"
proof
  assume dc: "d \<in> set (subnodes c)"
  from proper_subnode_is_input [OF dc d(2)] obtain u where u: "u \<in> set (subnodes c)"
    "d \<in> set (inputs u)"
    by blast
  have "u \<in> set (subnodes h)" using u(1) c(1) by (rule subnodes_trans)
  with od u(2) have "u = h" by (auto simp: only_consumers_def list_all_iff)
  with u(1) subnodes_size [of h c] c(2) show False by auto
qed

lemma independent_run:
  assumes cons: "consistent_ids h" and c: "c \<in> set (subnodes h)" "size c < size h"
    and d: "d \<in> set (subnodes h)" "d \<noteq> c" and od: "only_consumers h d [h]"
    and users: "only_consumers h v [c, d]"
    and opc: "op c = Some f" and once: "count_list (inputs c) v = 1"
    and grad: "gradient f (np_ones (shape (cached_data c))) c = Inr gs"
    and run: "backward c = Inr G"
  shows "\<exists>a. G (nid v) = Some a \<and>
           map snd (filter (\<lambda>(w, g). nid w = nid v) (zip (inputs c) gs)) = [a]"
proof -
  let ?seed = "np_ones (shape (cached_data c))"
  let ?L = "map snd (filter (\<lambda>(w, g). nid w = nid v) (zip (inputs c) gs))"
  have cons_c: "consistent_ids c" using cons c(1) by (rule consistent_ids_subnode)
  from backward_loop_of_backward [OF run] obtain m where
    loop: "backward_loop (find_topo_sort c) ((\<lambda>_. [])(nid c := [?seed]), Map.empty) = Inr (m, G)"
    by blast
  note ok = find_topo_sort_ok [OF cons_c]
  note all = find_topo_sort_set [OF cons_c]
  have v_in: "v \<in> set (inputs c)" using once by (rule count_list_mem)
  have v_c: "v \<in> set (subnodes c)" using v_in by (rule inputs_subnodes)
  have v_ne: "v \<noteq> c" using inputs_size [OF v_in] by auto
  have v_h: "v \<in> set (subnodes h)" using v_c c(1) by (rule subnodes_trans)
  have d_out: "d \<notin> set (subnodes c)"
    using cons c d od by (rule only_consumers_below)
  have oc: "only_consumers c v [c]"
    unfolding only_consumers_def list_all_iff
  proof (intro ballI impI)
    fix u assume u: "u \<in> set (subnodes c)" "v \<in> set (inputs u)"
    have "u \<in> set (subnodes h)" using u(1) c(1) by (rule subnodes_trans)
    with users u(2) have "u = c \<or> u = d" by (auto simp: only_consumers_def list_all_iff)
    with d_out u(1) show "u \<in> set [c]" by auto
  qed
  have root: "G (nid c) = Some ?seed" using cons_c loop by (rule run_root)
  have "m (nid v) = contributions G c (nid v)"
    using cons_c loop v_c v_ne subnodes_self oc by (rule run_one_consumer)
  also have "\<dots> = ?L" using opc root grad by (rule contributions_Some)
  finally have mv: "m (nid v) = ?L" .
  from backward_loop_finalized [OF ok(1) loop, of v] v_c all
  obtain a where a: "sum_node_list (m (nid v)) = Inr a" "G (nid v) = Some a" by auto
  have "?L = [a]"
    using cons c(1) v_h once a(1) [unfolded mv] by (rule single_contribution)
  with a(2) show ?thesis by simp
qed

lemma two_consumers_sum:
  assumes cons: "consistent_ids h"
    and h: "op h = Some EWiseAdd" "inputs h = [nf, ng]"
    and fg: "nf \<noteq> ng" "op nf = Some f" "op ng = Some g"
    and once: "count_list (inputs nf) v = 1" "count_list (inputs ng) v = 1"
    and users: "only_consumers h v [nf, ng]" "only_consumers h nf [h]" "only_consumers h ng [h]"
    and shapes: "shape (cached_data nf) = shape (cached_data h)"
      "shape (cached_data ng) = shape (cached_data h)"
    and run_h: "backward h = Inr Gh" and run_f: "backward nf = Inr Gf"
    and run_g: "backward ng = Inr Gg"
  shows "\<exists>a b s. Gf (nid v) = Some a \<and> Gg (nid v) = Some b \<and>
           sum_node_list [a, b] = Inr s \<and> EWiseAdd_compute a b = Inr s \<and>
           Gh (nid v) = Some s"
proof -
  let ?seed = "np_ones (shape (cached_data h))"
  from backward_loop_of_backward [OF run_h] obtain m where
    loop: "backward_loop (find_topo_sort h) ((\<lambda>_. [])(nid h := [?seed]), Map.empty) = Inr (m, Gh)"
    by blast
  note ok = find_topo_sort_ok [OF cons]
  note all = find_topo_sort_set [OF cons]
  have f_in: "nf \<in> set (inputs h)" and g_in: "ng \<in> set (inputs h)" using h(2) by simp_all
  have f_h: "nf \<in> set (subnodes h)" and g_h: "ng \<in> set (subnodes h)"
    using f_in g_in by (simp_all add: inputs_subnodes)
  have f_sz: "size nf < size h" and g_sz: "size ng < size h"
    using f_in g_in by (simp_all add: inputs_size)
  have f_ne: "nf \<noteq> h" and g_ne: "ng \<noteq> h" using f_sz g_sz by auto
  have v_f: "v \<in> set (inputs nf)" using once(1) by (rule count_list_mem)
  have v_h: "v \<in> set (subnodes h)"
    using inputs_subnodes [OF v_f] f_h by (rule subnodes_trans)
  have v_ne: "v \<noteq> h" using inputs_size [OF v_f] f_sz by auto
  have ids: "nid ng \<noteq> nid nf"
    using consistent_idsD [OF cons g_h f_h] fg(1) by auto
  have root: "Gh (nid h) = Some ?seed" using cons loop by (rule run_root)
  have grad_h: "gradient EWiseAdd ?seed h = Inr [?seed, ?seed]"
    by (simp add: EWiseAdd_gradient_def)
  have c_h: "contributions Gh h x =
      map snd (filter (\<lambda>(w, g). nid w = x) (zip (inputs h) [?seed, ?seed]))" for x
    using h(1) root grad_h by (rule contributions_Some)
  have c_f: "contributions Gh h (nid nf) = [?seed]"
    using ids by (simp add: c_h h(2))
  have c_g: "contributions Gh h (nid ng) = [?seed]"
    using ids by (simp add: c_h h(2))
  have "m (nid nf) = contributions Gh h (nid nf)"
    using cons loop f_h f_ne subnodes_self users(2) by (rule run_one_consumer)
  with c_f backward_loop_finalized [OF ok(1) loop, of nf] f_h all
  have Gh_f: "Gh (nid nf) = Some ?seed" by auto
  have "m (nid ng) = contributions Gh h (nid ng)"
    using cons loop g_h g_ne subnodes_self users(3) by (rule run_one_consumer)
  with c_g backward_loop_finalized [OF ok(1) loop, of ng] g_h all
  have Gh_g: "Gh (nid ng) = Some ?seed" by auto
  from backward_loop_gradient_succeeds [OF ok(1) loop _ fg(2)] f_h all Gh_f
  obtain gsf where gsf: "gradient f ?seed nf = Inr gsf" by auto
  from backward_loop_gradient_succeeds [OF ok(1) loop _ fg(3)] g_h all Gh_g
  obtain gsg where gsg: "gradient g ?seed ng = Inr gsg" by auto
  let ?Lf = "map snd (filter (\<lambda>(w, g). nid w = nid v) (zip (inputs nf) gsf))"
  let ?Lg = "map snd (filter (\<lambda>(w, g). nid w = nid v) (zip (inputs ng) gsg))"
  have cf: "contributions Gh nf (nid v) = ?Lf" using fg(2) Gh_f gsf by (rule contributions_Some)
  have cg: "contributions Gh ng (nid v) = ?Lg" using fg(3) Gh_g gsg by (rule contributions_Some)
  have mv: "m (nid v) = ?Lf @ ?Lg \<or> m (nid v) = ?Lg @ ?Lf"
    using run_two_consumers [OF cons loop v_h v_ne f_h g_h fg(1) users(1)]
    unfolding cf cg .
  from backward_loop_finalized [OF ok(1) loop, of v] v_h all
  obtain s where s: "sum_node_list (m (nid v)) = Inr s" "Gh (nid v) = Some s" by auto
  have users': "only_consumers h v [ng, nf]"
    using users(1) by (auto simp: only_consumers_def list_all_iff)
  from independent_run [OF cons f_h f_sz g_h fg(1) [symmetric] users(3) users(1) fg(2) once(1)
      gsf [folded shapes(1)] run_f]
  obtain a where a: "Gf (nid v) = Some a" "?Lf = [a]" by (elim exE conjE)
  from independent_run [OF cons g_h g_sz f_h fg(1) users(2) users' fg(3) once(2)
      gsg [folded shapes(2)] run_g]
  obtain b where b: "Gg (nid v) = Some b" "?Lg = [b]" by (elim exE conjE)
  from mv s(1) have "EWiseAdd_compute a b = Inr s \<or> EWiseAdd_compute b a = Inr s"
    unfolding a(2) b(2) by auto
  then have "EWiseAdd_compute a b = Inr s" by (auto simp: EWiseAdd_compute_commute)
  with a(1) b(1) s(2) show ?thesis by simp
qed


lemma backward_contribution_lists:
  assumes cons: "consistent_ids r" and ar: "arity_ok r" and run: "backward r = Inr G"
  shows "distinct (map nid (find_topo_sort r)) \<and> set (find_topo_sort r) = set (subnodes r) \<and>
    (\<exists>m. backward_loop (find_topo_sort r)
            ((\<lambda>_. [])(nid r := [np_ones (shape (cached_data r))]), Map.empty) = Inr (m, G) \<and>
         (\<forall>w\<in>set (subnodes r).
            (\<exists>g. sum_node_list (m (nid w)) = Inr g \<and> G (nid w) = Some g) \<and>
            m (nid w) = (if w = r then [np_ones (shape (cached_data r))] else []) @
                        concat (map (\<lambda>u. contributions G u (nid w)) (find_topo_sort r)) \<and>
            length (m (nid w)) =
              (if w = r then 1 else 0) + (\<Sum>u\<leftarrow>find_topo_sort r. count_list (inputs u) w)))"
proof -
  let ?seed = "np_ones (shape (cached_data r))"
  from backward_loop_of_backward [OF run] obtain m where
    loop: "backward_loop (find_topo_sort r) ((\<lambda>_. [])(nid r := [?seed]), Map.empty) = Inr (m, G)"
    by blast
  note ok = find_topo_sort_ok [OF cons]
  have "(\<exists>g. sum_node_list (m (nid w)) = Inr g \<and> G (nid w) = Some g) \<and>
        m (nid w) = (if w = r then [?seed] else []) @
                    concat (map (\<lambda>u. contributions G u (nid w)) (find_topo_sort r)) \<and>
        length (m (nid w)) =
          (if w = r then 1 else 0) + (\<Sum>u\<leftarrow>find_topo_sort r. count_list (inputs u) w)"
    if w: "w \<in> set (subnodes r)" for w
  proof -
    note fin = backward_finalizes_after_all_contributions [OF cons ar loop w]
    have e: "((\<lambda>_. [])(nid r := [?seed])) (nid w) = (if w = r then [?seed] else [])"
      using consistent_idsD [OF cons w subnodes_self] by auto
    have "m (nid w) = ((\<lambda>_. [])(nid r := [?seed])) (nid w) @
        concat (map (\<lambda>u. contributions G u (nid w)) (find_topo_sort r))"
      using ok(1) loop by (rule backward_loop_content)
    then show ?thesis using fin unfolding e by (simp add: count_list_filter)
  qed
  moreover have "distinct (map nid (find_topo_sort r))" using ok(1) by (rule topo_ok_distinct)
  moreover note find_topo_sort_set [OF cons]
  ultimately show ?thesis using loop by blast
qed

subsection \<open>A node with two consumers\<close>

text \<open>
  The seed of a pass has the shape of the node the pass starts from, and the gradient of
  \<^verbatim>\<open>EWiseAdd\<close> hands the incoming gradient to both operands unchanged. When one operand of
  the sum was broadcast, the pass from the sum therefore seeds that operand with a gradient
  of the larger shape. For \<open>v\<close> of shape \<open>(1,)\<close>, \<open>f(v) = -v\<close> and \<open>g(v)\<close> the broadcast of
  \<open>v\<close> to shape \<open>(3,)\<close>, the pass from \<open>h = f(v) + g(v)\<close> gives \<open>v\<close> the gradient
  \<open>[2, 2, 2]\<close>, while the passes from \<open>f(v)\<close> and from \<open>g(v)\<close> give \<open>[-1]\<close> and \<open>[3]\<close>,
  whose sum is \<open>[2]\<close>.
\<close>

lemma Negate_gradient_ones_3:
  "Negate_gradient (np_ones [3]) u = Inr [NDArray [3] [- 1, - 1, - 1]]"
  by code_simp

lemma Negate_gradient_ones_1:
  "Negate_gradient (np_ones [1]) u = Inr [NDArray [1] [- 1]]"
  by code_simp

lemma BroadcastTo_gradient_ones_3:
  "BroadcastTo_gradient shp (np_ones [3]) (Node j opn [Node i opn' ins (NDArray [1] xs)] c)
   = Inr [NDArray [1] [3]]"
  by code_simp

lemma EWiseAdd_compute_broadcast_example:
  "EWiseAdd_compute (NDArray [1] [3]) (NDArray [3] [- 1, - 1, - 1]) = Inr (NDArray [3] [2, 2, 2])"
  by code_simp

lemma EWiseAdd_compute_single_example:
  "EWiseAdd_compute (NDArray [1] [- 1]) (NDArray [1] [3]) = Inr (NDArray [1] [2])"
  by code_simp

theorem backward_broadcast_consumer_not_sum:
  "grad_of (Node 3 (Some EWiseAdd)
        [Node 1 (Some Negate) [Node 0 None [] (NDArray [1] [5])] (NDArray [1] [- 5]),
         Node 2 (Some (BroadcastTo [3])) [Node 0 None [] (NDArray [1] [5])] (NDArray [3] [5, 5, 5])]
        (NDArray [3] [0, 0, 0]))
      (Node 0 None [] (NDArray [1] [5])) = Inr (Some (NDArray [3] [2, 2, 2]))
   \<and> grad_of (Node 1 (Some Negate) [Node 0 None [] (NDArray [1] [5])] (NDArray [1] [- 5]))
      (Node 0 None [] (NDArray [1] [5])) = Inr (Some (NDArray [1] [- 1]))
   \<and> grad_of (Node 2 (Some (BroadcastTo [3])) [Node 0 None [] (NDArray [1] [5])]
         (NDArray [3] [5, 5, 5]))
      (Node 0 None [] (NDArray [1] [5])) = Inr (Some (NDArray [1] [3]))
   \<and> EWiseAdd_compute (NDArray [1] [- 1]) (NDArray [1] [3]) = Inr (NDArray [1] [2])
   \<and> NDArray [3] [2, 2, 2] \<noteq> NDArray [1] [2]"
  by (simp add: grad_of_def backward_def backward_from_def find_topo_sort_def backward_step_def
      EWiseAdd_gradient_def Negate_gradient_ones_3 Negate_gradient_ones_1 [unfolded One_nat_def]
      BroadcastTo_gradient_ones_3 [unfolded One_nat_def]
      EWiseAdd_compute_broadcast_example [unfolded One_nat_def]
      EWiseAdd_compute_single_example [unfolded One_nat_def])

text \<open>
  C2. Let \<open>h = f(\<dots>) + g(\<dots>)\<close> be the elementwise sum of two different nodes \<open>nf\<close> and
  \<open>ng\<close>, computed by the operators \<open>f\<close> and \<open>g\<close> from any number of operands, in a graph
  with consistent identities. Let \<open>v\<close> be a node that occurs exactly once among the operands
  of \<open>nf\<close> and exactly once among those of \<open>ng\<close> and is an input of no other node of the
  graph, let \<open>nf\<close> and \<open>ng\<close> be inputs of no node but \<open>h\<close>, and let \<open>nf\<close>, \<open>ng\<close> and \<open>h\<close>
  have one shape. When the backward passes from \<open>h\<close>, from \<open>nf\<close> and from \<open>ng\<close> succeed,
  the gradient of \<open>v\<close> in the pass from \<open>h\<close> is the sum of exactly two contributions, the
  gradients of \<open>v\<close> in the independent passes from \<open>nf\<close> and from \<open>ng\<close>.

  In general, for a graph with consistent identities whose nodes have the operand counts
  of their operators, a successful backward pass from \<open>r\<close> processes every reachable node
  exactly once, and for every reachable node \<open>w\<close> the gradient it records is the sum of the
  final contribution list of \<open>w\<close>: no contribution arrives after the gradient of \<open>w\<close> has
  been computed and propagated. That list consists of the seed, if \<open>w\<close> is the node the pass
  starts from, followed by what the gradient of each consumer's operator, called with
  that consumer's recorded gradient, returns for \<open>w\<close>; its length is the number of times
  \<open>w\<close> occurs as an operand of a reachable node (plus one for the seed).
\<close>

theorem backward_accumulates_contributions:
  "(consistent_ids h \<and> op h = Some EWiseAdd \<and> inputs h = [nf, ng] \<and> nf \<noteq> ng \<and>
    op nf = Some f \<and> op ng = Some g \<and>
    count_list (inputs nf) v = 1 \<and> count_list (inputs ng) v = 1 \<and>
    only_consumers h v [nf, ng] \<and> only_consumers h nf [h] \<and> only_consumers h ng [h] \<and>
    shape (cached_data nf) = shape (cached_data h) \<and>
    shape (cached_data ng) = shape (cached_data h) \<and>
    backward h = Inr Gh \<and> backward nf = Inr Gf \<and> backward ng = Inr Gg \<longrightarrow>
    (\<exists>a b s. Gf (nid v) = Some a \<and> Gg (nid v) = Some b \<and>
       sum_node_list [a, b] = Inr s \<and> EWiseAdd_compute a b = Inr s \<and> Gh (nid v) = Some s))
   \<and>
   (consistent_ids r \<and> arity_ok r \<and> backward r = Inr G \<longrightarrow>
    distinct (map nid (find_topo_sort r)) \<and> set (find_topo_sort r) = set (subnodes r) \<and>
    (\<exists>m. backward_loop (find_topo_sort r)
            ((\<lambda>_. [])(nid r := [np_ones (shape (cached_data r))]), Map.empty) = Inr (m, G) \<and>
         (\<forall>w\<in>set (subnodes r).
            (\<exists>g. sum_node_list (m (nid w)) = Inr g \<and> G (nid w) = Some g) \<and>
            m (nid w) = (if w = r then [np_ones (shape (cached_data r))] else []) @
                        concat (map (\<lambda>u. contributions G u (nid w)) (find_topo_sort r)) \<and>
            length (m (nid w)) =
              (if w = r then 1 else 0) + (\<Sum>u\<leftarrow>find_topo_sort r. count_list (inputs u) w))))"
proof (intro conjI impI)
  assume a: "consistent_ids h \<and> op h = Some EWiseAdd \<and> inputs h = [nf, ng] \<and> nf \<noteq> ng \<and>
    op nf = Some f \<and> op ng = Some g \<and>
    count_list (inputs nf) v = 1 \<and> count_list (inputs ng) v = 1 \<and>
    only_consumers h v [nf, ng] \<and> only_consumers h nf [h] \<and> only_consumers h ng [h] \<and>
    shape (cached_data nf) = shape (cached_data h) \<and>
    shape (cached_data ng) = shape (cached_data h) \<and>
    backward h = Inr Gh \<and> backward nf = Inr Gf \<and> backward ng = Inr Gg"
  show "\<exists>a b s. Gf (nid v) = Some a \<and> Gg (nid v) = Some b \<and>
       sum_node_list [a, b] = Inr s \<and> EWiseAdd_compute a b = Inr s \<and> Gh (nid v) = Some s"
    using a by (elim conjE) (rule two_consumers_sum [of h nf ng f g v Gh Gf Gg])
next
  assume b: "consistent_ids r \<and> arity_ok r \<and> backward r = Inr G"
  then have b': "consistent_ids r" "arity_ok r" "backward r = Inr G" by simp_all
  note l = backward_contribution_lists [OF b']
  show "distinct (map nid (find_topo_sort r))" using l by (rule conjunct1)
  show "set (find_topo_sort r) = set (subnodes r)" using l by (elim conjE)
  show "\<exists>m. backward_loop (find_topo_sort r)
            ((\<lambda>_. [])(nid r := [np_ones (shape (cached_data r))]), Map.empty) = Inr (m, G) \<and>
         (\<forall>w\<in>set (subnodes r).
            (\<exists>g. sum_node_list (m (nid w)) = Inr g \<and> G (nid w) = Some g) \<and>
            m (nid w) = (if w = r then [np_ones (shape (cached_data r))] else []) @
                        concat (map (\<lambda>u. contributions G u (nid w)) (find_topo_sort r)) \<and>
            length (m (nid w)) =
              (if w = r then 1 else 0) + (\<Sum>u\<leftarrow>find_topo_sort r. count_list (inputs u) w))"
    using l by (elim conjE)
qed

lemma EWiseMul_gradient_example:
  "EWiseMul_gradient (np_ones [2])
     (Node i opn [Node j opn1 ins1 (NDArray [2] [1, 2]), Node k opn2 ins2 (NDArray [2] [3, 4])] c)
   = Inr [NDArray [2] [3, 4], NDArray [2] [1, 2]]"
  by code_simp

lemma Negate_gradient_ones_2:
  "Negate_gradient (np_ones [2]) u = Inr [NDArray [2] [- 1, - 1]]"
  by code_simp

lemma EWiseAdd_compute_example:
  "EWiseAdd_compute (NDArray [2] [- 1, - 1]) (NDArray [2] [3, 4]) = Inr (NDArray [2] [2, 3])"
  "EWiseAdd_compute (NDArray [2] [3, 4]) (NDArray [2] [- 1, - 1]) = Inr (NDArray [2] [2, 3])"
  by code_simp+

lemma backward_example_product_sum:
  "\<exists>G. backward (Node 4 (Some EWiseAdd)
        [Node 2 (Some EWiseMul) [Node 0 None [] (NDArray [2] [1, 2]), Node 1 None [] (NDArray [2] [3, 4])] (NDArray [2] [3, 8]),
         Node 3 (Some Negate) [Node 0 None [] (NDArray [2] [1, 2])] (NDArray [2] [- 1, - 2])]
        (NDArray [2] [2, 6])) = Inr G \<and> G 0 = Some (NDArray [2] [2, 3])"
  by (simp add: backward_def backward_from_def find_topo_sort_def backward_step_def
      EWiseAdd_gradient_def EWiseMul_gradient_example Negate_gradient_ones_2
      EWiseAdd_compute_example)

lemma backward_example_product:
  "\<exists>G. backward (Node 2 (Some EWiseMul) [Node 0 None [] (NDArray [2] [1, 2]), Node 1 None [] (NDArray [2] [3, 4])] (NDArray [2] [3, 8])) = Inr G \<and> G 0 = Some (NDArray [2] [3, 4])"
  by (simp add: backward_def backward_from_def find_topo_sort_def backward_step_def
      EWiseMul_gradient_example)

lemma backward_example_negate:
  "\<exists>G. backward (Node 3 (Some Negate) [Node 0 None [] (NDArray [2] [1, 2])] (NDArray [2] [- 1, - 2])) = Inr G \<and> G 0 = Some (NDArray [2] [- 1, - 1])"
  by (simp add: backward_def backward_from_def find_topo_sort_def backward_step_def
      Negate_gradient_ones_2)

lemma example_graph_facts:
  "consistent_ids (Node 4 (Some EWiseAdd)
        [Node 2 (Some EWiseMul) [Node 0 None [] (NDArray [2] [1, 2]), Node 1 None [] (NDArray [2] [3, 4])] (NDArray [2] [3, 8]),
         Node 3 (Some Negate) [Node 0 None [] (NDArray [2] [1, 2])] (NDArray [2] [- 1, - 2])]
        (NDArray [2] [2, 6]))"
  "arity_ok (Node 4 (Some EWiseAdd)
        [Node 2 (Some EWiseMul) [Node 0 None [] (NDArray [2] [1, 2]), Node 1 None [] (NDArray [2] [3, 4])] (NDArray [2] [3, 8]),
         Node 3 (Some Negate) [Node 0 None [] (NDArray [2] [1, 2])] (NDArray [2] [- 1, - 2])]
        (NDArray [2] [2, 6]))"
  "only_consumers (Node 4 (Some EWiseAdd)
        [Node 2 (Some EWiseMul) [Node 0 None [] (NDArray [2] [1, 2]), Node 1 None [] (NDArray [2] [3, 4])] (NDArray [2] [3, 8]),
         Node 3 (Some Negate) [Node 0 None [] (NDArray [2] [1, 2])] (NDArray [2] [- 1, - 2])]
        (NDArray [2] [2, 6])) (Node 0 None [] (NDArray [2] [1, 2])) [Node 2 (Some EWiseMul) [Node 0 None [] (NDArray [2] [1, 2]), Node 1 None [] (NDArray [2] [3, 4])] (NDArray [2] [3, 8]), Node 3 (Some Negate) [Node 0 None [] (NDArray [2] [1, 2])] (NDArray [2] [- 1, - 2])]"
  "only_consumers (Node 4 (Some EWiseAdd)
        [Node 2 (Some EWiseMul) [Node 0 None [] (NDArray [2] [1, 2]), Node 1 None [] (NDArray [2] [3, 4])] (NDArray [2] [3, 8]),
         Node 3 (Some Negate) [Node 0 None [] (NDArray [2] [1, 2])] (NDArray [2] [- 1, - 2])]
        (NDArray [2] [2, 6])) (Node 2 (Some EWiseMul) [Node 0 None [] (NDArray [2] [1, 2]), Node 1 None [] (NDArray [2] [3, 4])] (NDArray [2] [3, 8])) [Node 4 (Some EWiseAdd)
        [Node 2 (Some EWiseMul) [Node 0 None [] (NDArray [2] [1, 2]), Node 1 None [] (NDArray [2] [3, 4])] (NDArray [2] [3, 8]),
         Node 3 (Some Negate) [Node 0 None [] (NDArray [2] [1, 2])] (NDArray [2] [- 1, - 2])]
        (NDArray [2] [2, 6])]"
  "only_consumers (Node 4 (Some EWiseAdd)
        [Node 2 (Some EWiseMul) [Node 0 None [] (NDArray [2] [1, 2]), Node 1 None [] (NDArray [2] [3, 4])] (NDArray [2] [3, 8]),
         Node 3 (Some Negate) [Node 0 None [] (NDArray [2] [1, 2])] (NDArray [2] [- 1, - 2])]
        (NDArray [2] [2, 6])) (Node 3 (Some Negate) [Node 0 None [] (NDArray [2] [1, 2])] (NDArray [2] [- 1, - 2])) [Node 4 (Some EWiseAdd)
        [Node 2 (Some EWiseMul) [Node 0 None [] (NDArray [2] [1, 2]), Node 1 None [] (NDArray [2] [3, 4])] (NDArray [2] [3, 8]),
         Node 3 (Some Negate) [Node 0 None [] (NDArray [2] [1, 2])] (NDArray [2] [- 1, - 2])]
        (NDArray [2] [2, 6])]"
  by code_simp+

lemma example_graph_count:
  "(\<Sum>u\<leftarrow>find_topo_sort (Node 4 (Some EWiseAdd)
        [Node 2 (Some EWiseMul) [Node 0 None [] (NDArray [2] [1, 2]), Node 1 None [] (NDArray [2] [3, 4])] (NDArray [2] [3, 8]),
         Node 3 (Some Negate) [Node 0 None [] (NDArray [2] [1, 2])] (NDArray [2] [- 1, - 2])]
        (NDArray [2] [2, 6])). count_list (inputs u) (Node 0 None [] (NDArray [2] [1, 2]))) = 2"
  by (simp add: find_topo_sort_def)

theorem backward_accumulates_contributions_witness:
  "\<exists>Gh Gf Gg a b s m.
      backward (Node 4 (Some EWiseAdd)
        [Node 2 (Some EWiseMul) [Node 0 None [] (NDArray [2] [1, 2]), Node 1 None [] (NDArray [2] [3, 4])] (NDArray [2] [3, 8]),
         Node 3 (Some Negate) [Node 0 None [] (NDArray [2] [1, 2])] (NDArray [2] [- 1, - 2])]
        (NDArray [2] [2, 6])) = Inr Gh
    \<and> backward (Node 2 (Some EWiseMul) [Node 0 None [] (NDArray [2] [1, 2]), Node 1 None [] (NDArray [2] [3, 4])] (NDArray [2] [3, 8])) = Inr Gf
    \<and> backward (Node 3 (Some Negate) [Node 0 None [] (NDArray [2] [1, 2])] (NDArray [2] [- 1, - 2])) = Inr Gg
    \<and> Gf 0 = Some a \<and> Gg 0 = Some b \<and> a = NDArray [2] [3, 4] \<and> b = NDArray [2] [- 1, - 1]
    \<and> sum_node_list [a, b] = Inr s \<and> EWiseAdd_compute a b = Inr s \<and> Gh 0 = Some s
    \<and> s = NDArray [2] [2, 3]
    \<and> backward_loop (find_topo_sort (Node 4 (Some EWiseAdd)
        [Node 2 (Some EWiseMul) [Node 0 None [] (NDArray [2] [1, 2]), Node 1 None [] (NDArray [2] [3, 4])] (NDArray [2] [3, 8]),
         Node 3 (Some Negate) [Node 0 None [] (NDArray [2] [1, 2])] (NDArray [2] [- 1, - 2])]
        (NDArray [2] [2, 6])))
          ((\<lambda>_. [])(4 := [np_ones [2]]), Map.empty) = Inr (m, Gh)
    \<and> length (m 0) = 2 \<and> sum_node_list (m 0) = Inr s"
proof -
  let ?v = "Node 0 None [] (NDArray [2] [1, 2])"
  let ?nf = "Node 2 (Some EWiseMul) [Node 0 None [] (NDArray [2] [1, 2]), Node 1 None [] (NDArray [2] [3, 4])] (NDArray [2] [3, 8])"
  let ?ng = "Node 3 (Some Negate) [Node 0 None [] (NDArray [2] [1, 2])] (NDArray [2] [- 1, - 2])"
  let ?h = "Node 4 (Some EWiseAdd) [?nf, ?ng] (NDArray [2] [2, 6])"
  from backward_example_product_sum obtain Gh where
    h: "backward ?h = Inr Gh" and h0: "Gh 0 = Some (NDArray [2] [2, 3])"
    by blast
  from backward_example_product obtain Gf where
    f: "backward ?nf = Inr Gf" and f0: "Gf 0 = Some (NDArray [2] [3, 4])"
    by blast
  from backward_example_negate obtain Gg where
    g: "backward ?ng = Inr Gg" and g0: "Gg 0 = Some (NDArray [2] [- 1, - 1])"
    by blast
  note facts = example_graph_facts
  note inst = backward_accumulates_contributions
    [of ?h ?nf ?ng EWiseMul Negate ?v Gh Gf Gg ?h Gh]
  have "\<exists>a b s. Gf 0 = Some a \<and> Gg 0 = Some b \<and>
       sum_node_list [a, b] = Inr s \<and> EWiseAdd_compute a b = Inr s \<and> Gh 0 = Some s"
    using inst [THEN conjunct1] facts h f g by simp
  then obtain a b s where abs: "Gf 0 = Some a" "Gg 0 = Some b" "sum_node_list [a, b] = Inr s"
    "EWiseAdd_compute a b = Inr s" "Gh 0 = Some s"
    by blast
  from inst [THEN conjunct2, THEN mp, OF conjI [OF facts(1) conjI [OF facts(2) h]]]
  obtain m where loop: "backward_loop (find_topo_sort ?h)
            ((\<lambda>_. [])(nid ?h := [np_ones (shape (cached_data ?h))]), Map.empty) = Inr (m, Gh)"
    and every: "\<forall>w\<in>set (subnodes ?h).
            (\<exists>g. sum_node_list (m (nid w)) = Inr g \<and> Gh (nid w) = Some g) \<and>
            m (nid w) = (if w = ?h then [np_ones (shape (cached_data ?h))] else []) @
                        concat (map (\<lambda>u. contributions Gh u (nid w)) (find_topo_sort ?h)) \<and>
            length (m (nid w)) =
              (if w = ?h then 1 else 0) + (\<Sum>u\<leftarrow>find_topo_sort ?h. count_list (inputs u) w)"
    by (elim conjE exE)
  have "?v \<in> set (subnodes ?h)" by simp
  note at_v = bspec [OF every this]
  have "\<exists>g. sum_node_list (m 0) = Inr g \<and> Gh 0 = Some g"
    using at_v [THEN conjunct1] by simp
  moreover have "length (m 0) = 0 + (\<Sum>u\<leftarrow>find_topo_sort ?h. count_list (inputs u) ?v)"
    using at_v [THEN conjunct2, THEN conjunct2] by simp
  ultimately have m0: "sum_node_list (m 0) = Inr s" "length (m 0) = 2"
    using abs(5) unfolding example_graph_count by auto
  have loop': "backward_loop (find_topo_sort ?h)
          ((\<lambda>_. [])(4 := [np_ones [2]]), Map.empty) = Inr (m, Gh)"
    using loop by simp
  from abs h f g h0 f0 g0 m0 loop' show ?thesis by auto
qed

end
